theory Spec2Isabelle
  imports Complex_Main
begin

section \<open>Triplet recommendations in pytorch: the sampler, the losses, the batcher and the evaluator\<close>

text \<open>
  The notebooks train a latent-factor model (\<open>FactNet\<close>) with a triplet loss
  (\<open>TripletLoss\<close>), sample negatives by rejection (\<open>sample_neg\<close>), cut the
  triplet arrays into mini-batches (\<open>batcher\<close>) and evaluate with a per-user AUC
  (\<open>full_auc\<close>). The definitions below follow the notebook cells function by function.

  Conventions of the embedding:
  \<^item> a Python exception is a value \<open>Inl e\<close> of a sum type, a normal return is \<open>Inr v\<close>;
  \<^item> a one-dimensional tensor or numpy array is a list;
  \<^item> a float tensor element is an \<open>fval\<close>: a real number or one of the infinities
    or NaN; the operations of the loss functions round to float32 (\<open>round32\<close>), the
    scores of \<open>FactNet\<close> and the mean of \<open>full_auc\<close> are left unrounded;
  \<^item> \<open>np.random.randint\<close> reads an explicit random state, which counts the draws.
\<close>

subsection \<open>Exceptions and floating-point values\<close>

datatype error = IndexError | ValueError | UnboundLocalError | RuntimeError

datatype fval = Fin real | PInf | NInf | NaN

subsection \<open>float32 arithmetic\<close>

text \<open>
  The tensors of the notebooks are \<open>torch.FloatTensor\<close>s: every elementwise operation
  returns the float32 nearest to the exact result (round to nearest, ties to even),
  with gradual underflow below \<open>2^-126\<close> and overflow to an infinity from \<open>2^128\<close> on.
  A finite float32 is \<open>Fin x\<close> for a real \<open>x\<close> that \<open>round32\<close> leaves unchanged; the
  sign of a zero is not modelled (a zero divisor is the positive zero).
\<close>

definition pow2 :: "int \<Rightarrow> real" where
  "pow2 e = (if 0 \<le> e then 2 ^ nat e else 1 / 2 ^ nat (- e))"

definition round_half_even :: "real \<Rightarrow> int" where
  "round_half_even t =
     (let f = \<lfloor>t\<rfloor>
      in if t - of_int f < 1 / 2 then f
         else if 1 / 2 < t - of_int f then f + 1
         else if even f then f else f + 1)"

text \<open>The binade of \<open>x\<close> (at least that of the subnormals) and the spacing of the float32
  numbers in it: 24 significant bits.\<close>

definition float32_exponent :: "real \<Rightarrow> int" where
  "float32_exponent x = max (- 126) \<lfloor>log 2 \<bar>x\<bar>\<rfloor>"

definition float32_ulp :: "real \<Rightarrow> real" where
  "float32_ulp x = pow2 (float32_exponent x - 23)"

definition nearest32 :: "real \<Rightarrow> real" where
  "nearest32 x = (if x = 0 then 0 else of_int (round_half_even (x / float32_ulp x)) * float32_ulp
      x)"

definition round32 :: "real \<Rightarrow> fval" where
  "round32 x =
     (let y = nearest32 x
      in if pow2 128 \<le> y then PInf else if y \<le> - pow2 128 then NInf else Fin y)"

definition is_float32 :: "real \<Rightarrow> bool" where
  "is_float32 x = (round32 x = Fin x)"

text \<open>The order of the floats: \<open>-inf\<close> below and \<open>+inf\<close> above every number, NaN
  unordered.\<close>

fun fle :: "fval \<Rightarrow> fval \<Rightarrow> bool" where
  "fle NaN y = False"
| "fle x NaN = False"
| "fle NInf y = True"
| "fle x PInf = True"
| "fle (Fin a) (Fin b) = (a \<le> b)"
| "fle PInf y = False"
| "fle x NInf = False"

fun fneg :: "fval \<Rightarrow> fval" where
  "fneg (Fin a) = Fin (- a)"
| "fneg PInf = NInf"
| "fneg NInf = PInf"
| "fneg NaN = NaN"

fun fadd32 :: "fval \<Rightarrow> fval \<Rightarrow> fval" where
  "fadd32 NaN y = NaN"
| "fadd32 x NaN = NaN"
| "fadd32 (Fin a) (Fin b) = round32 (a + b)"
| "fadd32 PInf NInf = NaN"
| "fadd32 NInf PInf = NaN"
| "fadd32 PInf y = PInf"
| "fadd32 NInf y = NInf"
| "fadd32 x PInf = PInf"
| "fadd32 x NInf = NInf"

definition fsub32 :: "fval \<Rightarrow> fval \<Rightarrow> fval" where
  "fsub32 x y = fadd32 x (fneg y)"

fun fmul32 :: "fval \<Rightarrow> fval \<Rightarrow> fval" where
  "fmul32 NaN y = NaN"
| "fmul32 x NaN = NaN"
| "fmul32 (Fin a) (Fin b) = round32 (a * b)"
| "fmul32 (Fin a) PInf = (if a = 0 then NaN else if 0 < a then PInf else NInf)"
| "fmul32 (Fin a) NInf = (if a = 0 then NaN else if 0 < a then NInf else PInf)"
| "fmul32 PInf (Fin b) = (if b = 0 then NaN else if 0 < b then PInf else NInf)"
| "fmul32 NInf (Fin b) = (if b = 0 then NaN else if 0 < b then NInf else PInf)"
| "fmul32 PInf PInf = PInf"
| "fmul32 PInf NInf = NInf"
| "fmul32 NInf PInf = NInf"
| "fmul32 NInf NInf = PInf"

fun fdiv32 :: "fval \<Rightarrow> fval \<Rightarrow> fval" where
  "fdiv32 NaN y = NaN"
| "fdiv32 x NaN = NaN"
| "fdiv32 (Fin a) (Fin b) =
     (if b = 0 then (if a = 0 then NaN else if 0 < a then PInf else NInf) else round32 (a / b))"
| "fdiv32 (Fin a) PInf = Fin 0"
| "fdiv32 (Fin a) NInf = Fin 0"
| "fdiv32 PInf (Fin b) = (if b < 0 then NInf else PInf)"
| "fdiv32 NInf (Fin b) = (if b < 0 then PInf else NInf)"
| "fdiv32 PInf PInf = NaN"
| "fdiv32 PInf NInf = NaN"
| "fdiv32 NInf PInf = NaN"
| "fdiv32 NInf NInf = NaN"

text \<open>\<open>torch.floor\<close>: the floor of a float32 is a float32.\<close>

fun ffloor :: "fval \<Rightarrow> fval" where
  "ffloor (Fin a) = Fin (of_int \<lfloor>a\<rfloor>)"
| "ffloor x = x"

text \<open>\<open>torch.log\<close>, \<open>torch.sigmoid\<close> and the cast of a double to float32 are the
  library's. They are modelled as correctly rounded: the float32 nearest to the exact
  value. The statements below use their sign, their monotonicity and their values at
  0, 1 and far from 0 only.\<close>

fun flog32 :: "fval \<Rightarrow> fval" where
  "flog32 (Fin a) = (if 0 < a then round32 (ln a) else if a = 0 then NInf else NaN)"
| "flog32 PInf = PInf"
| "flog32 NInf = NaN"
| "flog32 NaN = NaN"

definition sigmoid :: "real \<Rightarrow> real" where
  "sigmoid x = 1 / (1 + exp (- x))"

fun sigmoid32 :: "fval \<Rightarrow> fval" where
  "sigmoid32 (Fin a) = round32 (sigmoid a)"
| "sigmoid32 PInf = Fin 1"
| "sigmoid32 NInf = Fin 0"
| "sigmoid32 NaN = NaN"

text \<open>\<open>np.log\<close> of a Python integer is a double (taken as exact here); dividing a float
  tensor by it casts it to float32.\<close>

definition np_log :: "int \<Rightarrow> fval" where
  "np_log n = (if 0 < n then Fin (ln (of_int n)) else if n = 0 then NInf else NaN)"

fun float32_of :: "fval \<Rightarrow> fval" where
  "float32_of (Fin a) = round32 a"
| "float32_of x = x"

text \<open>\<open>torch.clamp(x, min=lo)\<close>: a NaN stays a NaN.\<close>

fun clamp_min :: "fval \<Rightarrow> real \<Rightarrow> fval" where
  "clamp_min (Fin a) lo = Fin (if a < lo then lo else a)"
| "clamp_min NInf lo = Fin lo"
| "clamp_min PInf lo = PInf"
| "clamp_min NaN lo = NaN"

subsection \<open>\<open>TripletLoss\<close>\<close>

text \<open>
  \<^verbatim>\<open>def warp_weight(self, nsamp):
      return torch.log(torch.floor((self.n_items-1)/nsamp)) / np.log(self.n_items)\<close>

  \<open>nsamp\<close> is a float tensor (the attempt counts of one batch) and the operations are
  elementwise. A Python number divided by a tensor is the tensor's \<open>__rdiv__\<close>, which
  computes \<open>nsamp.reciprocal() * (n_items - 1)\<close>: two roundings.
      \<open>warp_log_arg\<close> names
  the tensor element that \<open>torch.log\<close> receives.
\<close>

definition warp_log_arg :: "int \<Rightarrow> fval \<Rightarrow> fval" where
  "warp_log_arg n_items x = ffloor (fmul32 (fdiv32 (Fin 1) x) (round32 (of_int (n_items - 1))))"

definition warp_weight1 :: "int \<Rightarrow> fval \<Rightarrow> fval" where
  "warp_weight1 n_items x = fdiv32 (flog32 (warp_log_arg n_items x)) (float32_of (np_log n_items))"

definition warp_weight :: "int \<Rightarrow> fval list \<Rightarrow> fval list" where
  "warp_weight n_items nsamp = map (warp_weight1 n_items) nsamp"

text \<open>The float tensor built from the integer attempt counts
  (\<open>torch.FloatTensor(nsamp_batch)\<close>).\<close>

definition FloatTensor :: "int list \<Rightarrow> fval list" where
  "FloatTensor ns = map (\<lambda>n. round32 (of_int n)) ns"

text \<open>
  \<^verbatim>\<open>def forward_sigmoid(self, pos_pred, neg_pred):
      loss = 1.0 - torch.sigmoid(pos_pred - neg_pred)
  def forward_hinge(self, pos_pred, neg_pred):
      loss = torch.clamp(1.0 + neg_pred - pos_pred, min=0.0)\<close>

  Both are elementwise on two float32 score tensors of one batch; tensors of different
  lengths are a \<open>RuntimeError\<close> (all callers pass batches of equal length). Every
  operation rounds: \<open>1.0 + neg_pred\<close> first, then the subtraction of
      \<open>pos_pred\<close>.
\<close>

definition elementwise :: "(fval \<Rightarrow> fval \<Rightarrow> fval) \<Rightarrow> fval list
    \<Rightarrow> fval list \<Rightarrow> error + fval list" where
  "elementwise f xs ys =
     (if length xs = length ys then Inr (map (\<lambda>(x, y). f x y) (zip xs ys)) else Inl
         RuntimeError)"

definition sigmoid_loss1 :: "fval \<Rightarrow> fval \<Rightarrow> fval" where
  "sigmoid_loss1 pos_pred neg_pred = fsub32 (Fin 1.0) (sigmoid32 (fsub32 pos_pred neg_pred))"

definition hinge_loss1 :: "fval \<Rightarrow> fval \<Rightarrow> fval" where
  "hinge_loss1 pos_pred neg_pred = clamp_min (fsub32 (fadd32 (Fin 1.0) neg_pred) pos_pred) 0.0"

definition forward_sigmoid :: "fval list \<Rightarrow> fval list \<Rightarrow> error + fval list"
    where
  "forward_sigmoid pos_pred neg_pred = elementwise sigmoid_loss1 pos_pred neg_pred"

definition forward_hinge :: "fval list \<Rightarrow> fval list \<Rightarrow> error + fval list"
    where
  "forward_hinge pos_pred neg_pred = elementwise hinge_loss1 pos_pred neg_pred"

subsection \<open>\<open>FactNet\<close>\<close>

text \<open>
  \<open>FactNet(n_users, n_items, n_latent)\<close> owns two \<open>nn.Embedding\<close> tables of the same
  width: one for the users and a single one for the items. A table is its weight
  matrix, read as \<open>weight row column\<close>; looking up an id outside the table raises.
\<close>

record FactNet =
  net_n_users :: int
  net_n_items :: int
  net_n_latent :: nat
  user_embedding_weight :: "int \<Rightarrow> nat \<Rightarrow> real"
  item_embedding_weight :: "int \<Rightarrow> nat \<Rightarrow> real"

definition embedding :: "int \<Rightarrow> nat \<Rightarrow> (int \<Rightarrow> nat \<Rightarrow>
    real) \<Rightarrow> int list \<Rightarrow> error + real list list" where
  "embedding num_embeddings embedding_dim weight ids =
     (if list_all (\<lambda>i. 0 \<le> i \<and> i < num_embeddings) ids
      then Inr (map (\<lambda>i. map (weight i) [0..<embedding_dim]) ids)
      else Inl IndexError)"

definition user_embedding_layer :: "FactNet \<Rightarrow> int list \<Rightarrow> error + real list
    list" where
  "user_embedding_layer net uid =
     embedding (net_n_users net) (net_n_latent net) (user_embedding_weight net) uid"

definition item_embedding_layer :: "FactNet \<Rightarrow> int list \<Rightarrow> error + real list
    list" where
  "item_embedding_layer net iid =
     embedding (net_n_items net) (net_n_latent net) (item_embedding_weight net) iid"

text \<open>\<open>(a * b).sum(dim=1)\<close> on two batches of embedding rows: the elementwise product
  needs as many rows on both sides, then every row is summed.\<close>

definition mul_sum_dim1 :: "real list list \<Rightarrow> real list list \<Rightarrow> error + real
    list" where
  "mul_sum_dim1 a b =
     (if length a = length b
      then Inr (map (\<lambda>(u, v). sum_list (map (\<lambda>(x, y). x * y) (zip u v))) (zip a b))
      else Inl RuntimeError)"

text \<open>
  \<^verbatim>\<open>def predict_score(self, uid, iid):
      user_embedding = self.user_embedding_layer(uid)
      item_embedding = self.item_embedding_layer(iid)
      score = (user_embedding * item_embedding).sum(dim=1)
      return score\<close>
\<close>

definition predict_score :: "FactNet \<Rightarrow> int list \<Rightarrow> int list \<Rightarrow>
    error + real list" where
  "predict_score net uid iid =
     (case user_embedding_layer net uid of
        Inl e \<Rightarrow> Inl e
      | Inr user_embedding \<Rightarrow>
          (case item_embedding_layer net iid of
             Inl e \<Rightarrow> Inl e
           | Inr item_embedding \<Rightarrow> mul_sum_dim1 user_embedding item_embedding))"

text \<open>
  \<^verbatim>\<open>def forward(self, uid, pid, nid):
      user_embedding = self.user_embedding_layer(uid)
      pos_item_embedding = self.item_embedding_layer(pid)
      neg_item_embedding = self.item_embedding_layer(nid)
      pos_pred = (user_embedding * pos_item_embedding).sum(dim=1)
      neg_pred = (user_embedding * neg_item_embedding).sum(dim=1)
      return pos_pred, neg_pred\<close>
\<close>

definition forward :: "FactNet \<Rightarrow> int list \<Rightarrow> int list \<Rightarrow> int list
    \<Rightarrow> error + (real list \<times> real list)" where
  "forward net uid pid nid =
     (case user_embedding_layer net uid of
        Inl e \<Rightarrow> Inl e
      | Inr user_embedding \<Rightarrow>
          (case item_embedding_layer net pid of
             Inl e \<Rightarrow> Inl e
           | Inr pos_item_embedding \<Rightarrow>
               (case item_embedding_layer net nid of
                  Inl e \<Rightarrow> Inl e
                | Inr neg_item_embedding \<Rightarrow>
                    (case mul_sum_dim1 user_embedding pos_item_embedding of
                       Inl e \<Rightarrow> Inl e
                     | Inr pos_pred \<Rightarrow>
                         (case mul_sum_dim1 user_embedding neg_item_embedding of
                            Inl e \<Rightarrow> Inl e
                          | Inr neg_pred \<Rightarrow> Inr (pos_pred, neg_pred))))))"

subsection \<open>\<open>batcher\<close>\<close>

text \<open>
  \<^verbatim>\<open>def batcher(iterable, batch_size):
      it = iter(iterable)
      while True:
          chunk = tuple(itertools.islice(it, batch_size))
          if not chunk:
              return
          yield np.array(chunk, dtype=np.int64)\<close>

  The generator is the list of the chunks it yields. \<open>islice\<close> takes the next
  \<open>batch_size\<close> elements of the iterator (fewer at its end) and raises a
  \<open>ValueError\<close> on a negative count.
\<close>

function batcher_loop :: "'a list \<Rightarrow> nat \<Rightarrow> 'a list list" where
  "batcher_loop it batch_size =
     (let chunk = take batch_size it
      in if chunk = [] then [] else chunk # batcher_loop (drop batch_size it) batch_size)"
  by pat_completeness auto
termination
  by (relation "measure (\<lambda>(it, batch_size). length it)") auto

definition batcher :: "'a list \<Rightarrow> int \<Rightarrow> error + 'a list list" where
  "batcher iterable batch_size =
     (if batch_size < 0 then Inl ValueError else Inr (batcher_loop iterable (nat batch_size)))"

subsection \<open>The interaction matrix\<close>

text \<open>A scipy CSR matrix: row \<open>r\<close> owns the entries \<open>indptr[r] .. indptr[r+1]-1\<close> of
  \<open>indices\<close> (the column ids) and \<open>data\<close> (the values).\<close>

record csr_matrix =
  indptr :: "int list"
  indices :: "int list"
  data :: "int list"
  shape :: "int \<times> int"

text \<open>numpy indexing \<open>a[i]\<close> (a negative index counts from the end) and slicing
  \<open>a[start:stop]\<close> (out-of-range bounds are cut to the array).\<close>

definition np_getitem :: "'a list \<Rightarrow> int \<Rightarrow> error + 'a" where
  "np_getitem a i =
     (if 0 \<le> i \<and> i < int (length a) then Inr (a ! nat i)
      else if - int (length a) \<le> i \<and> i < 0 then Inr (a ! nat (int (length a) + i))
      else Inl IndexError)"

definition slice_bound :: "nat \<Rightarrow> int \<Rightarrow> nat" where
  "slice_bound n i = (if i < 0 then nat (max 0 (int n + i)) else min n (nat i))"

definition np_slice :: "'a list \<Rightarrow> int \<Rightarrow> int \<Rightarrow> 'a list" where
  "np_slice a start stop = drop (slice_bound (length a) start) (take (slice_bound (length a) stop)
      a)"

text \<open>
  \<^verbatim>\<open>def get_row_nz(csr_mat, col_ind):
      start_idx = csr_mat.indptr[col_ind]
      stop_idx = csr_mat.indptr[col_ind+1]
      return csr_mat.indices[start_idx:stop_idx]\<close>
\<close>

definition get_row_nz :: "csr_matrix \<Rightarrow> int \<Rightarrow> error + int list" where
  "get_row_nz csr_mat col_ind =
     (case np_getitem (indptr csr_mat) col_ind of
        Inl e \<Rightarrow> Inl e
      | Inr start_idx \<Rightarrow>
          (case np_getitem (indptr csr_mat) (col_ind + 1) of
             Inl e \<Rightarrow> Inl e
           | Inr stop_idx \<Rightarrow> Inr (np_slice (indices csr_mat) start_idx stop_idx)))"

subsection \<open>The random source\<close>

text \<open>
  \<open>np.random.randint(low, high)\<close> returns an integer of \<open>[low, high)\<close> and raises a
  \<open>ValueError\<close> when the interval is empty. The generator's state is a sequence of
  entropy and the number of draws made so far; every value of the interval is the
  result for some entropy.
\<close>

record rng =
  entropy :: "nat \<Rightarrow> nat"
  drawn :: nat

definition randint :: "int \<Rightarrow> int \<Rightarrow> rng \<Rightarrow> (error + int) \<times>
    rng" where
  "randint low high s =
     (if high \<le> low then (Inl ValueError, s)
      else (Inr (low + int (entropy s (drawn s)) mod (high - low)), s\<lparr>drawn := drawn s +
          1\<rparr>))"

subsection \<open>\<open>sample_neg\<close>\<close>

text \<open>
  \<^verbatim>\<open>def sample_neg(user_ind, interactions, max_samples=100,
                 violating_cond=lambda neg_item_ind:True):
      user_pos_item_inds = get_row_nz(interactions, user_ind)
      n_sampled = 0
      while n_sampled < max_samples:
          neg_item_ind = np.random.randint(0, n_items)
          n_sampled += 1
          if neg_item_ind not in user_pos_item_inds:
              if violating_cond(neg_item_ind):
                  break  # will go and use this sample
      return neg_item_ind, n_sampled\<close>

  \<open>n_items\<close> is a global of the notebook and a parameter here.
      \<open>neg_item_ind\<close> is
  unbound until the first draw, so returning it without a draw raises. The callback
  \<open>violating_cond\<close> may raise. The random state is threaded through and returned
  also with an exception.
\<close>

function sample_neg_loop ::
  "int list \<Rightarrow> int \<Rightarrow> (int \<Rightarrow> error + bool) \<Rightarrow> int
      \<Rightarrow> int \<Rightarrow> int option \<Rightarrow> rng
     \<Rightarrow> (error + int \<times> int) \<times> rng" where
  "sample_neg_loop user_pos_item_inds max_samples violating_cond n_items n_sampled neg_item_ind s =
     (if n_sampled < max_samples then
        (case randint 0 n_items s of
           (Inl e, s') \<Rightarrow> (Inl e, s')
         | (Inr neg_item_ind', s') \<Rightarrow>
             (if neg_item_ind' \<notin> set user_pos_item_inds then
                (case violating_cond neg_item_ind' of
                   Inl e \<Rightarrow> (Inl e, s')
                 | Inr b \<Rightarrow>
                     (if b then (Inr (neg_item_ind', n_sampled + 1), s')
                      else sample_neg_loop user_pos_item_inds max_samples violating_cond n_items
                             (n_sampled + 1) (Some neg_item_ind') s'))
              else sample_neg_loop user_pos_item_inds max_samples violating_cond n_items
                     (n_sampled + 1) (Some neg_item_ind') s'))
      else
        (case neg_item_ind of
           None \<Rightarrow> (Inl UnboundLocalError, s)
         | Some v \<Rightarrow> (Inr (v, n_sampled), s)))"
  by pat_completeness auto
termination
  by (relation "measure (\<lambda>(p, max_samples, c, n, n_sampled, v, s). nat (max_samples -
      n_sampled))") auto

definition sample_neg ::
  "int \<Rightarrow> csr_matrix \<Rightarrow> int \<Rightarrow> (int \<Rightarrow> error + bool)
      \<Rightarrow> int \<Rightarrow> rng \<Rightarrow> (error + int \<times> int) \<times> rng"
          where
  "sample_neg user_ind interactions max_samples violating_cond n_items s =
     (case get_row_nz interactions user_ind of
        Inl e \<Rightarrow> (Inl e, s)
      | Inr user_pos_item_inds \<Rightarrow>
          sample_neg_loop user_pos_item_inds max_samples violating_cond n_items 0 None s)"

text \<open>The default callback \<open>lambda neg_item_ind: True\<close>.\<close>

definition accept_all :: "int \<Rightarrow> error + bool" where
  "accept_all neg_item_ind = Inr True"

subsection \<open>\<open>full_auc\<close>\<close>










section \<open>Properties\<close>

subsection \<open>float32 rounding\<close>

lemma pow2_powr: "pow2 e = 2 powr (of_int e)"
  by (simp add: pow2_def powr_real_of_int inverse_eq_divide)

lemma pow2_pos [simp]: "0 < pow2 e"
  by (simp add: pow2_powr)

lemma pow2_add: "pow2 (a + b) = pow2 a * pow2 b"
  by (simp add: pow2_powr powr_add)

lemma pow2_diff: "pow2 (a - b) = pow2 a / pow2 b"
  by (simp add: pow2_powr powr_diff)

lemma pow2_mono: "a \<le> b \<Longrightarrow> pow2 a \<le> pow2 b"
  by (simp add: pow2_powr)

lemma pow2_strict_mono: "a < b \<Longrightarrow> pow2 a < pow2 b"
  by (simp add: pow2_powr)

lemma pow2_nat: "pow2 (int n) = 2 ^ n"
  by (simp add: pow2_def)


lemma rhe_cases:
  "(round_half_even t = \<lfloor>t\<rfloor> \<and> t - of_int \<lfloor>t\<rfloor> \<le> 1 / 2)
   \<or> (round_half_even t = \<lfloor>t\<rfloor> + 1 \<and> 1 / 2 \<le> t - of_int
       \<lfloor>t\<rfloor>)"
  by (simp add: round_half_even_def Let_def)

lemma rhe_near: "\<bar>of_int (round_half_even t) - t\<bar> \<le> 1 / 2"
proof -
  have b: "of_int \<lfloor>t\<rfloor> \<le> t" "t < of_int \<lfloor>t\<rfloor> + 1" by linarith+
  from rhe_cases [of t] show ?thesis
  proof (elim disjE conjE)
    assume r: "round_half_even t = \<lfloor>t\<rfloor>" and "t - of_int \<lfloor>t\<rfloor> \<le> 1
        / 2"
    then have "\<bar>of_int \<lfloor>t\<rfloor> - t\<bar> \<le> 1 / 2" using b by linarith
    then show ?thesis by (simp only: r)
  next
    assume r: "round_half_even t = \<lfloor>t\<rfloor> + 1" and "1 / 2 \<le> t - of_int
        \<lfloor>t\<rfloor>"
    then have "\<bar>of_int (\<lfloor>t\<rfloor> + 1) - t\<bar> \<le> 1 / 2" using b by simp
    then show ?thesis by (simp only: r)
  qed
qed

lemma rhe_int [simp]: "round_half_even (of_int m) = m"
  by (simp add: round_half_even_def)

lemma rhe_mono:
  assumes "t \<le> t'"
  shows "round_half_even t \<le> round_half_even t'"
proof (cases "\<lfloor>t\<rfloor> = \<lfloor>t'\<rfloor>")
  case True
  then show ?thesis using assms by (simp add: round_half_even_def Let_def)
next
  case False
  then have lt: "\<lfloor>t\<rfloor> < \<lfloor>t'\<rfloor>" using floor_mono [OF assms] by linarith
  have "round_half_even t \<le> \<lfloor>t\<rfloor> + 1" using rhe_cases [of t] by linarith
  moreover have "\<lfloor>t'\<rfloor> \<le> round_half_even t'" using rhe_cases [of t'] by linarith
  ultimately show ?thesis using lt by linarith
qed

lemma floor_minus_nonint:
  assumes "t \<noteq> of_int \<lfloor>t\<rfloor>"
  shows "\<lfloor>- t\<rfloor> = - \<lfloor>t\<rfloor> - 1"
proof -
  have "of_int \<lfloor>t\<rfloor> < t" "t < of_int \<lfloor>t\<rfloor> + 1" using assms by
      linarith+
  then have "of_int (- \<lfloor>t\<rfloor> - 1) \<le> - t" "- t < of_int (- \<lfloor>t\<rfloor> -
      1) + 1" by simp_all
  then show ?thesis by (rule floor_unique)
qed

lemma rhe_minus: "round_half_even (- t) = - round_half_even t"
proof (cases "t = of_int \<lfloor>t\<rfloor>")
  case True
  have "round_half_even (- of_int \<lfloor>t\<rfloor>) = - round_half_even (of_int
      \<lfloor>t\<rfloor>)"
    by (simp only: rhe_int of_int_minus [symmetric])
  then show ?thesis by (subst (1 2) True) 
next
  case False
  note fl = floor_minus_nonint [OF False]
  have ev: "even (- \<lfloor>t\<rfloor> - 1) \<longleftrightarrow> odd \<lfloor>t\<rfloor>" by simp
  define d where "d = t - of_int \<lfloor>t\<rfloor>"
  have d: "- t - of_int (- \<lfloor>t\<rfloor> - 1) = 1 - d" by (simp add: d_def)
  show ?thesis
    unfolding round_half_even_def Let_def fl d ev d_def [symmetric]
    by (cases "d < 1 / 2"; cases "1 / 2 < d") auto
qed

lemma floor_log2_bounds:
  assumes "0 < a"
  shows "pow2 \<lfloor>log 2 a\<rfloor> \<le> a" "a < pow2 (\<lfloor>log 2 a\<rfloor> + 1)"
proof -
  have "\<lfloor>log 2 a\<rfloor> = \<lfloor>log 2 a\<rfloor> \<longleftrightarrow>
          2 powr (of_int \<lfloor>log 2 a\<rfloor>) \<le> a \<and> a < 2 powr (of_int (\<lfloor>log
              2 a\<rfloor> + 1))"
    using assms by (intro floor_log_eq_powr_iff) auto
  then show "pow2 \<lfloor>log 2 a\<rfloor> \<le> a" "a < pow2 (\<lfloor>log 2 a\<rfloor> + 1)"
    by (simp_all add: pow2_powr)
qed

lemma floor_log2_eqI:
  assumes "pow2 e \<le> a" "a < pow2 (e + 1)"
  shows "\<lfloor>log 2 a\<rfloor> = e"
proof -
  have "0 < a" using assms(1) pow2_pos [of e] by linarith
  then have "\<lfloor>log 2 a\<rfloor> = e \<longleftrightarrow> 2 powr (of_int e) \<le> a \<and> a
      < 2 powr (of_int (e + 1))"
    by (intro floor_log_eq_powr_iff) auto
  then show ?thesis using assms by (simp add: pow2_powr)
qed

lemma float32_exponent_ge: "- 126 \<le> float32_exponent x"
  by (simp add: float32_exponent_def)

lemma float32_exponent_upper:
  assumes "x \<noteq> 0"
  shows "\<bar>x\<bar> < pow2 (float32_exponent x + 1)"
proof -
  have "\<bar>x\<bar> < pow2 (\<lfloor>log 2 \<bar>x\<bar>\<rfloor> + 1)" using assms by (intro
      floor_log2_bounds) simp
  also have "\<dots> \<le> pow2 (float32_exponent x + 1)"
    by (intro pow2_mono) (simp add: float32_exponent_def)
  finally show ?thesis .
qed

lemma float32_exponent_lower:
  assumes "x \<noteq> 0" "- 126 < float32_exponent x"
  shows "pow2 (float32_exponent x) \<le> \<bar>x\<bar>"
proof -
  have "float32_exponent x = \<lfloor>log 2 \<bar>x\<bar>\<rfloor>" using assms(2) by (simp add:
      float32_exponent_def max_def split: if_splits)
  then show ?thesis using assms(1) floor_log2_bounds(1) [of "\<bar>x\<bar>"] by simp
qed

lemma float32_exponent_normal:
  assumes "pow2 e \<le> \<bar>x\<bar>" "\<bar>x\<bar> < pow2 (e + 1)" "- 126 \<le> e"
  shows "float32_exponent x = e"
  using floor_log2_eqI [OF assms(1,2)] assms(3) by (simp add: float32_exponent_def)

lemma float32_exponent_subnormal:
  assumes "x \<noteq> 0" "\<bar>x\<bar> < pow2 (- 126)"
  shows "float32_exponent x = - 126"
proof -
  have "pow2 \<lfloor>log 2 \<bar>x\<bar>\<rfloor> < pow2 (- 126)"
    using floor_log2_bounds(1) [of "\<bar>x\<bar>"] assms by simp
  then have "\<lfloor>log 2 \<bar>x\<bar>\<rfloor> < - 126"
    using pow2_mono [of "- 126" "\<lfloor>log 2 \<bar>x\<bar>\<rfloor>"] by linarith
  then show ?thesis by (simp add: float32_exponent_def)
qed

lemma float32_exponent_minus [simp]: "float32_exponent (- x) = float32_exponent x"
  by (simp add: float32_exponent_def)

lemma float32_ulp_minus [simp]: "float32_ulp (- x) = float32_ulp x"
  by (simp add: float32_ulp_def)

lemma float32_ulp_pos [simp]: "0 < float32_ulp x"
  by (simp add: float32_ulp_def)

lemma float32_exponent_mono:
  assumes "0 < x" "x \<le> x'"
  shows "float32_exponent x \<le> float32_exponent x'"
proof -
  have "log 2 \<bar>x\<bar> \<le> log 2 \<bar>x'\<bar>" using assms by simp
  then have "\<lfloor>log 2 \<bar>x\<bar>\<rfloor> \<le> \<lfloor>log 2 \<bar>x'\<bar>\<rfloor>" by
      (rule floor_mono)
  then show ?thesis by (simp add: float32_exponent_def)
qed

lemma nearest32_minus: "nearest32 (- x) = - nearest32 x"
  by (simp add: nearest32_def rhe_minus)

lemma nearest32_nonneg:
  assumes "0 \<le> x"
  shows "0 \<le> nearest32 x"
proof (cases "x = 0")
  case True
  then show ?thesis by (simp add: nearest32_def)
next
  case False
  have "0 \<le> x / float32_ulp x" using assms by (intro divide_nonneg_pos) simp_all
  then have "round_half_even 0 \<le> round_half_even (x / float32_ulp x)" by (rule rhe_mono)
  moreover have "round_half_even 0 = 0" using rhe_int [of 0] by simp
  ultimately have "0 \<le> real_of_int (round_half_even (x / float32_ulp x))" by simp
  then have "0 \<le> real_of_int (round_half_even (x / float32_ulp x)) * float32_ulp x"
    by (intro mult_nonneg_nonneg) (simp_all add: less_imp_le)
  then show ?thesis using False by (simp add: nearest32_def)
qed

lemma nearest32_upper:
  assumes "0 < x"
  shows "nearest32 x \<le> pow2 (float32_exponent x + 1)"
proof -
  define e where "e = float32_exponent x"
  define u where "u = float32_ulp x"
  have u: "u = pow2 (e - 23)" "0 < u" by (simp_all add: u_def e_def float32_ulp_def)
  have "x < pow2 (e + 1)" using float32_exponent_upper [of x] assms by (simp add: e_def)
  moreover have "pow2 (e + 1) = of_int (2 ^ 24) * u"
  proof -
    have "e + 1 = 24 + (e - 23)" by simp
    then have "pow2 (e + 1) = pow2 (24 + (e - 23))" by (simp only:)
    then have "pow2 (e + 1) = pow2 24 * pow2 (e - 23)" by (simp only: pow2_add)
    then show ?thesis by (simp add: u pow2_def)
  qed
  ultimately have "x / u \<le> of_int (2 ^ 24)" using u by (simp add: pos_divide_le_eq)
  then have "round_half_even (x / u) \<le> round_half_even (of_int (2 ^ 24))" by (rule rhe_mono)
  then have "round_half_even (x / u) \<le> 2 ^ 24" by (simp only: rhe_int)
  then have "real_of_int (round_half_even (x / u)) \<le> real_of_int (2 ^ 24)" by (simp only:
      of_int_le_iff)
  then have "of_int (round_half_even (x / u)) * u \<le> of_int (2 ^ 24) * u"
    using u by (simp only: mult_le_cancel_right_pos)
  then show ?thesis
    using assms \<open>pow2 (e + 1) = of_int (2 ^ 24) * u\<close> by (simp add: nearest32_def u_def
        e_def)
qed

lemma nearest32_lower:
  assumes "0 < x" "- 126 < float32_exponent x"
  shows "pow2 (float32_exponent x) \<le> nearest32 x"
proof -
  define e where "e = float32_exponent x"
  define u where "u = float32_ulp x"
  have u: "u = pow2 (e - 23)" "0 < u" by (simp_all add: u_def e_def float32_ulp_def)
  have "pow2 e \<le> x" using float32_exponent_lower [of x] assms by (simp add: e_def)
  moreover have pe: "pow2 e = of_int (2 ^ 23) * u"
  proof -
    have "e = 23 + (e - 23)" by simp
    then have "pow2 e = pow2 (23 + (e - 23))" by (simp only:)
    then have "pow2 e = pow2 23 * pow2 (e - 23)" by (simp only: pow2_add)
    then show ?thesis by (simp add: u pow2_def)
  qed
  ultimately have "of_int (2 ^ 23) \<le> x / u" using u by (simp add: pos_le_divide_eq)
  then have "round_half_even (of_int (2 ^ 23)) \<le> round_half_even (x / u)" by (rule rhe_mono)
  then have "2 ^ 23 \<le> round_half_even (x / u)" by (simp only: rhe_int)
  then have "real_of_int (2 ^ 23) \<le> real_of_int (round_half_even (x / u))" by (simp only:
      of_int_le_iff)
  then have "of_int (2 ^ 23) * u \<le> of_int (round_half_even (x / u)) * u"
    using u by (simp only: mult_le_cancel_right_pos)
  then show ?thesis using assms pe by (simp add: nearest32_def u_def e_def)
qed

lemma nearest32_mono_pos:
  assumes "0 < x" "x \<le> x'"
  shows "nearest32 x \<le> nearest32 x'"
proof (cases "float32_exponent x = float32_exponent x'")
  case True
  then have u: "float32_ulp x = float32_ulp x'" by (simp add: float32_ulp_def)
  have "x / float32_ulp x' \<le> x' / float32_ulp x'"
    using assms by (intro divide_right_mono) (simp_all add: less_imp_le)
  then have "round_half_even (x / float32_ulp x') \<le> round_half_even (x' / float32_ulp x')"
    by (rule rhe_mono)
  then have "real_of_int (round_half_even (x / float32_ulp x'))
               \<le> real_of_int (round_half_even (x' / float32_ulp x'))" by (simp only:
                   of_int_le_iff)
  then have "of_int (round_half_even (x / float32_ulp x')) * float32_ulp x'
               \<le> of_int (round_half_even (x' / float32_ulp x')) * float32_ulp x'"
    by (simp only: mult_le_cancel_right_pos float32_ulp_pos)
  then show ?thesis using assms u by (simp add: nearest32_def)
next
  case False
  then have lt: "float32_exponent x < float32_exponent x'"
    using float32_exponent_mono [OF assms] by linarith
  have "nearest32 x \<le> pow2 (float32_exponent x + 1)" using assms by (intro nearest32_upper)
  also have "\<dots> \<le> pow2 (float32_exponent x')" using lt by (intro pow2_mono) simp
  also have "\<dots> \<le> nearest32 x'"
    using assms lt float32_exponent_ge [of x] by (intro nearest32_lower) auto
  finally show ?thesis .
qed

lemma nearest32_mono:
  assumes "x \<le> x'"
  shows "nearest32 x \<le> nearest32 x'"
proof -
  consider "0 < x" | "x \<le> 0" "0 \<le> x'" | "x' < 0" using assms by linarith
  then show ?thesis
  proof cases
    case 1
    then show ?thesis using assms by (rule nearest32_mono_pos)
  next
    case 2
    have "0 \<le> nearest32 (- x)" using 2 by (intro nearest32_nonneg) simp
    then have "nearest32 x \<le> 0" by (simp add: nearest32_minus)
    also have "0 \<le> nearest32 x'" using 2 by (intro nearest32_nonneg)
    finally show ?thesis .
  next
    case 3
    have "nearest32 (- x') \<le> nearest32 (- x)" using 3 assms by (intro nearest32_mono_pos) auto
    then show ?thesis by (simp add: nearest32_minus)
  qed
qed

lemma round32_mono:
  assumes "x \<le> x'"
  shows "fle (round32 x) (round32 x')"
proof -
  have "nearest32 x \<le> nearest32 x'" using assms by (rule nearest32_mono)
  moreover have "- pow2 128 < pow2 128" using pow2_pos [of 128] by linarith
  ultimately show ?thesis by (simp add: round32_def Let_def)
qed

lemma round32_FinD:
  assumes "round32 x = Fin y"
  shows "y = nearest32 x" "- pow2 128 < y" "y < pow2 128"
  using assms by (simp_all add: round32_def Let_def split: if_splits)

lemma round32_between:
  assumes "fle (Fin lo) (round32 x)" "fle (round32 x) (Fin hi)"
  shows "\<exists>y. round32 x = Fin y \<and> lo \<le> y \<and> y \<le> hi"
  using assms by (cases "round32 x") simp_all

lemma nearest32_abs_error:
  assumes "x \<noteq> 0"
  shows "\<bar>nearest32 x - x\<bar> \<le> float32_ulp x / 2"
proof -
  define u where "u = float32_ulp x"
  define r where "r = real_of_int (round_half_even (x / u))"
  have u: "0 < u" by (simp add: u_def)
  have n: "nearest32 x = r * u" using assms by (simp add: nearest32_def u_def r_def)
  have "\<bar>r - x / u\<bar> \<le> 1 / 2" unfolding r_def by (rule rhe_near)
  then have "\<bar>r - x / u\<bar> * u \<le> 1 / 2 * u" using u by (simp only:
      mult_le_cancel_right_pos)
  moreover have "\<bar>r - x / u\<bar> * u = \<bar>(r - x / u) * u\<bar>" using u by (simp add:
      abs_mult)
  moreover have "(r - x / u) * u = r * u - x" using u by (simp add: algebra_simps)
  ultimately have "\<bar>r * u - x\<bar> \<le> u / 2" by simp
  then show ?thesis by (simp only: n u_def)
qed

lemma nearest32_rel_error:
  assumes "pow2 (- 126) \<le> \<bar>x\<bar>"
  shows "\<bar>nearest32 x - x\<bar> \<le> \<bar>x\<bar> / 2 ^ 24"
proof -
  have "0 < \<bar>x\<bar>" using assms pow2_pos [of "- 126"] by linarith
  then have nz: "x \<noteq> 0" by simp
  define e where "e = float32_exponent x"
  have pe: "pow2 e \<le> \<bar>x\<bar>"
  proof (cases "- 126 < e")
    case True
    then show ?thesis using float32_exponent_lower [OF nz] by (simp add: e_def)
  next
    case False
    then have "e = - 126" using float32_exponent_ge [of x] by (simp add: e_def)
    then show ?thesis using assms by simp
  qed
  have "e - 23 = - 24 + e + 1" by simp
  then have "pow2 (e - 23) = pow2 (- 24 + (e + 1))" by (simp only: add.assoc)
  then have "pow2 (e - 23) = pow2 (- 24) * pow2 (e + 1)" by (simp only: pow2_add)
  moreover have "pow2 (e + 1) = pow2 e * pow2 1" by (rule pow2_add)
  moreover have "pow2 1 = 2" "pow2 (- 24) = 1 / 2 ^ 24" by (simp_all add: pow2_def)
  ultimately have "float32_ulp x / 2 = pow2 e / 2 ^ 24" by (simp add: float32_ulp_def e_def)
  also have "\<dots> \<le> \<bar>x\<bar> / 2 ^ 24" using pe by (simp add: divide_right_mono)
  finally show ?thesis using nearest32_abs_error [OF nz] by linarith
qed

lemma nearest32_eval:
  assumes "pow2 e \<le> \<bar>x\<bar>" "\<bar>x\<bar> < pow2 (e + 1)" "- 126 \<le> e"
  shows "nearest32 x = of_int (round_half_even (x / pow2 (e - 23))) * pow2 (e - 23)"
proof -
  have "0 < \<bar>x\<bar>" using assms(1) pow2_pos [of e] by linarith
  then have "x \<noteq> 0" by simp
  then show ?thesis
    using float32_exponent_normal [OF assms] by (simp add: nearest32_def float32_ulp_def)
qed

lemma nearest32_eval_subnormal:
  assumes "x \<noteq> 0" "\<bar>x\<bar> < pow2 (- 126)"
  shows "nearest32 x = of_int (round_half_even (x / pow2 (- 149))) * pow2 (- 149)"
  using assms float32_exponent_subnormal [OF assms] by (simp add: nearest32_def float32_ulp_def)

lemma nearest32_fix:
  assumes "pow2 e \<le> \<bar>x\<bar>" "\<bar>x\<bar> < pow2 (e + 1)" "- 126 \<le> e" "x / pow2 (e
      - 23) = of_int m"
  shows "nearest32 x = x"
proof -
  have "nearest32 x = of_int m * pow2 (e - 23)"
    using nearest32_eval [OF assms(1-3)] by (simp only: assms(4) rhe_int)
  also have "\<dots> = x" using assms(4) pow2_pos [of "e - 23"] by (simp add: field_simps)
  finally show ?thesis .
qed

lemma nearest32_int:
  assumes "\<bar>n\<bar> < 2 ^ 24"
  shows "nearest32 (of_int n) = of_int n"
proof (cases "n = 0")
  case True
  then show ?thesis by (simp add: nearest32_def)
next
  case False
  define a where "a = \<bar>real_of_int n\<bar>"
  have a1: "1 \<le> a" using False by (simp add: a_def)
  have a24: "a < 2 ^ 24"
  proof -
    have "real_of_int \<bar>n\<bar> < real_of_int (2 ^ 24)" using assms by (simp only:
        of_int_less_iff)
    then show ?thesis by (simp add: a_def)
  qed
  define e where "e = \<lfloor>log 2 a\<rfloor>"
  have lo: "pow2 e \<le> a" and hi: "a < pow2 (e + 1)"
    using floor_log2_bounds [of a] a1 by (simp_all add: e_def)
  have e0: "0 \<le> e"
  proof -
    have "0 \<le> log 2 a" using a1 by simp
    then show ?thesis by (simp add: e_def)
  qed
  have e23: "e \<le> 23"
  proof (rule ccontr)
    assume "\<not> e \<le> 23"
    then have "pow2 24 \<le> pow2 e" by (intro pow2_mono) simp
    then show False using lo a24 by (simp add: pow2_def)
  qed
  have "pow2 (e - 23) = 1 / 2 ^ nat (23 - e)" using e23
    by (cases "e = 23") (simp_all add: pow2_def)
  then have "real_of_int n / pow2 (e - 23) = of_int (n * 2 ^ nat (23 - e))" by simp
  then show ?thesis
    using lo hi e0 by (intro nearest32_fix [of e _ "n * 2 ^ nat (23 - e)"]) (simp_all add: a_def)
qed

lemma round32_int:
  assumes "\<bar>n\<bar> < 2 ^ 24"
  shows "round32 (of_int n) = Fin (of_int n)"
proof -
  have "real_of_int \<bar>n\<bar> < real_of_int (2 ^ 24)" using assms by (simp only:
      of_int_less_iff)
  then have "\<bar>real_of_int n\<bar> < 2 ^ 24" by simp
  moreover have "(2::real) ^ 24 < pow2 128" by (simp add: pow2_def)
  ultimately have "real_of_int n < pow2 128" "- pow2 128 < real_of_int n" by linarith+
  then show ?thesis using nearest32_int [OF assms] by (simp add: round32_def Let_def)
qed

lemma round32_0 [simp]: "round32 0 = Fin 0"
  using round32_int [of 0] by simp

lemma round32_1 [simp]: "round32 1 = Fin 1"
  using round32_int [of 1] by simp

lemma round32_below_1: "round32 (1 - 1 / 2 ^ 24) = Fin (1 - 1 / 2 ^ 24)"
proof -
  have "nearest32 (1 - 1 / 2 ^ 24) = 1 - 1 / 2 ^ 24"
    by (rule nearest32_fix [of "- 1" _ "2 ^ 24 - 1"]) (simp_all add: pow2_def)
  then show ?thesis by (simp add: round32_def Let_def pow2_def)
qed

lemma round32_tie_below_1: "round32 (1 - 1 / 2 ^ 25) = Fin 1"
proof -
  have "nearest32 (1 - 1 / 2 ^ 25)
          = of_int (round_half_even ((1 - 1 / 2 ^ 25) / pow2 (- 1 - 23))) * pow2 (- 1 - 23)"
    by (rule nearest32_eval) (simp_all add: pow2_def)
  also have "\<dots> = 1" by (simp add: pow2_def round_half_even_def)
  finally show ?thesis by (simp add: round32_def Let_def pow2_def)
qed

lemma round32_tie_above_1: "round32 (1 + 1 / 2 ^ 24) = Fin 1"
proof -
  have "nearest32 (1 + 1 / 2 ^ 24)
          = of_int (round_half_even ((1 + 1 / 2 ^ 24) / pow2 (0 - 23))) * pow2 (0 - 23)"
    by (rule nearest32_eval) (simp_all add: pow2_def)
  also have "\<dots> = 1" by (simp add: pow2_def round_half_even_def)
  finally show ?thesis by (simp add: round32_def Let_def pow2_def)
qed

lemma round32_half: "round32 (1 / 2) = Fin (1 / 2)"
proof -
  have "nearest32 (1 / 2) = 1 / 2"
    by (rule nearest32_fix [of "- 1" _ "2 ^ 23"]) (simp_all add: pow2_def)
  then show ?thesis by (simp add: round32_def Let_def pow2_def)
qed

subsection \<open>The WARP weight\<close>

lemma round32_pow2_24: "round32 (2 ^ 24) = Fin (2 ^ 24)"
proof -
  have "nearest32 (2 ^ 24) = 2 ^ 24"
    by (rule nearest32_fix [of 24 _ "2 ^ 23"]) (simp_all add: pow2_def)
  then show ?thesis by (simp add: round32_def Let_def pow2_def)
qed

lemma round32_count:
  assumes "1 \<le> k" "k \<le> 2 ^ 23"
  shows "round32 (of_int k) = Fin (of_int k)"
  using assms by (intro round32_int) simp

text \<open>The float32 reciprocal of an attempt count.\<close>

lemma recip32:
  assumes "1 \<le> k" "k \<le> 2 ^ 23"
  shows "round32 (1 / of_int k) = Fin (nearest32 (1 / of_int k))"
    and "0 \<le> nearest32 (1 / of_int k)" and "nearest32 (1 / of_int k) \<le> 1"
    and "\<bar>nearest32 (1 / of_int k) - 1 / of_int k\<bar> \<le> (1 / of_int k) / 2 ^ 24"
proof -
  define x where "x = 1 / real_of_int k"
  have k: "1 \<le> real_of_int k" "real_of_int k \<le> 2 ^ 23"
  proof -
    show "1 \<le> real_of_int k" using assms(1) by simp
    have "real_of_int k \<le> real_of_int (2 ^ 23)" using assms(2) by (simp only: of_int_le_iff)
    then show "real_of_int k \<le> 2 ^ 23" by simp
  qed
  have x: "0 < x" "x \<le> 1" "1 / 2 ^ 23 \<le> x"
    using k by (simp_all add: x_def field_simps)
  show nn: "0 \<le> nearest32 (1 / of_int k)"
    using x by (fold x_def) (intro nearest32_nonneg, simp)
  have "nearest32 x \<le> nearest32 1" using x by (intro nearest32_mono)
  moreover have "nearest32 1 = 1" using nearest32_int [of 1] by simp
  ultimately show le1: "nearest32 (1 / of_int k) \<le> 1" by (simp add: x_def)
  have "(1::real) < pow2 128" by (simp add: pow2_def)
  then show "round32 (1 / of_int k) = Fin (nearest32 (1 / of_int k))"
    using nn le1 pow2_pos [of 128] by (simp add: round32_def Let_def)
  have "pow2 (- 126) \<le> 1 / 2 ^ 23" by (simp add: pow2_def)
  then have "pow2 (- 126) \<le> \<bar>x\<bar>" using x by linarith
  then have "\<bar>nearest32 x - x\<bar> \<le> \<bar>x\<bar> / 2 ^ 24" by (rule nearest32_rel_error)
  then show "\<bar>nearest32 (1 / of_int k) - 1 / of_int k\<bar> \<le> (1 / of_int k) / 2 ^ 24"
    using x by (simp add: x_def)
qed

lemma of_int_bounds:
  assumes "lo \<le> (k::int)" "k \<le> hi"
  shows "real_of_int lo \<le> real_of_int k" "real_of_int k \<le> real_of_int hi"
  using assms by simp_all

lemma ln_2_ge_half: "1 / 2 \<le> ln (2::real)"
proof -
  have "ln (1 / 2 :: real) \<le> 1 / 2 - 1" by (rule ln_le_minus_one) simp
  moreover have "ln (1 / 2 :: real) = - ln 2" by (simp add: ln_div)
  ultimately show ?thesis by simp
qed

text \<open>The product \<open>nsamp.reciprocal() * (n_items - 1)\<close> in float32, and its floor.\<close>

lemma warp_product:
  assumes "2 \<le> n_items" "n_items \<le> 2 ^ 23" "1 \<le> k" "k \<le> 2 ^ 23"
  shows "0 \<le> nearest32 (nearest32 (1 / of_int k) * of_int (n_items - 1))" and "nearest32
      (nearest32 (1 / of_int k) * of_int (n_items - 1)) \<le> of_int (n_items - 1)"
    and "warp_log_arg n_items (round32 (of_int k)) = Fin (of_int \<lfloor>nearest32 (nearest32 (1 /
        of_int k) * of_int (n_items - 1))\<rfloor>)"
proof -
  define r where "r = nearest32 (1 / real_of_int k)"
  define c where "c = real_of_int (n_items - 1)"
  have r: "round32 (1 / of_int k) = Fin r" "0 \<le> r" "r \<le> 1"
    using recip32 [OF assms(3,4)] by (simp_all add: r_def)
  have c1: "1 \<le> c" using assms(1) by (simp add: c_def)
  have cfix: "nearest32 c = c" unfolding c_def using assms(1,2) by (intro nearest32_int) simp
  have ccast: "round32 (of_int (n_items - 1)) = Fin c"
    unfolding c_def using assms(1,2) by (intro round32_int) simp
  have "0 \<le> r * c" using r c1 by simp
  then show nn: "0 \<le> nearest32 (nearest32 (1 / of_int k) * of_int (n_items - 1))"
    unfolding r_def [symmetric] c_def [symmetric] by (rule nearest32_nonneg)
  have "r * c \<le> 1 * c" using r c1 by (intro mult_right_mono) simp_all
  then have "nearest32 (r * c) \<le> nearest32 c" by (intro nearest32_mono) simp
  then show up: "nearest32 (nearest32 (1 / of_int k) * of_int (n_items - 1)) \<le> of_int (n_items
      - 1)"
    unfolding r_def [symmetric] c_def [symmetric] using cfix by simp
  have "c \<le> 2 ^ 23" using of_int_bounds(2) [OF assms(1) assms(2)] by (simp add: c_def)
  moreover have "(2::real) ^ 23 < pow2 128" by (simp add: pow2_def)
  ultimately have "nearest32 (r * c) < pow2 128" "- pow2 128 < nearest32 (r * c)"
    using nn up pow2_pos [of 128] unfolding r_def [symmetric] c_def [symmetric] by linarith+
  then have "round32 (r * c) = Fin (nearest32 (r * c))" by (simp add: round32_def Let_def)
  moreover have "real_of_int k \<noteq> 0" using assms(3) by simp
  ultimately show "warp_log_arg n_items (round32 (of_int k)) = Fin (of_int \<lfloor>nearest32
      (nearest32 (1 / of_int k) * of_int (n_items - 1))\<rfloor>)"
    using r(1) ccast round32_count [OF assms(3,4)]
    by (simp add: warp_log_arg_def r_def [symmetric] c_def [symmetric] del: of_int_diff)
qed

lemma warp_product_inside:
  assumes "2 \<le> n_items" "n_items \<le> 2 ^ 23" "1 \<le> k" "k \<le> n_items - 2"
  shows "1 \<le> nearest32 (nearest32 (1 / of_int k) * of_int (n_items - 1))"
proof -
  define x where "x = real_of_int k"
  define r where "r = nearest32 (1 / x)"
  define c where "c = real_of_int (n_items - 1)"
  have k23: "k \<le> 2 ^ 23" using assms by simp
  have x: "1 \<le> x" "x \<le> 2 ^ 23"
    using of_int_bounds [OF assms(3) k23] by (simp_all add: x_def)
  have c: "x + 1 \<le> c" using of_int_bounds(2) [OF assms(3) assms(4)] by (simp add: x_def c_def)
  have "\<bar>r - 1 / x\<bar> \<le> (1 / x) / 2 ^ 24" using recip32(4) [OF assms(3) k23] by (simp
      add: r_def x_def)
  then have "1 / x - (1 / x) / 2 ^ 24 \<le> r" by linarith
  then have "(1 / x - (1 / x) / 2 ^ 24) * (x + 1) \<le> r * (x + 1)"
    using x by (intro mult_right_mono) simp_all
  moreover have "0 \<le> r" using recip32(2) [OF assms(3) k23] by (simp add: r_def x_def)
  then have "r * (x + 1) \<le> r * c" using c by (intro mult_left_mono)
  moreover have "1 \<le> (1 / x - (1 / x) / 2 ^ 24) * (x + 1)"
  proof -
    have "(1 / x - (1 / x) / 2 ^ 24) * (x + 1) = (x + 1) * (2 ^ 24 - 1) / (x * 2 ^ 24)"
      using x by (simp add: field_simps)
    moreover have "x * 2 ^ 24 \<le> (x + 1) * (2 ^ 24 - 1)" using x by (simp add: algebra_simps)
    ultimately show ?thesis using x by (simp add: pos_le_divide_eq)
  qed
  ultimately have "1 \<le> r * c" by linarith
  then have "nearest32 1 \<le> nearest32 (r * c)" by (rule nearest32_mono)
  moreover have "nearest32 1 = 1" using nearest32_int [of 1] by simp
  ultimately show ?thesis by (simp add: r_def c_def x_def del: of_int_diff)
qed

lemma warp_product_beyond:
  assumes "2 \<le> n_items" "n_items \<le> k" "k \<le> 2 ^ 23"
  shows "nearest32 (nearest32 (1 / of_int k) * of_int (n_items - 1)) \<le> 1 - 1 / 2 ^ 24"
proof -
  define x where "x = real_of_int k"
  define r where "r = nearest32 (1 / x)"
  define c where "c = real_of_int (n_items - 1)"
  have k1: "1 \<le> k" using assms by simp
  have x: "1 \<le> x" "x \<le> 2 ^ 23"
    using of_int_bounds [OF k1 assms(3)] by (simp_all add: x_def)
  have "n_items - 1 \<le> k - 1" using assms by simp
  then have "real_of_int (n_items - 1) \<le> real_of_int (k - 1)" by (simp only: of_int_le_iff)
  then have c: "c \<le> x - 1" by (simp add: x_def c_def)
  have c0: "0 \<le> c" using assms(1) by (simp add: c_def)
  have "\<bar>r - 1 / x\<bar> \<le> (1 / x) / 2 ^ 24" using recip32(4) [OF k1 assms(3)] by (simp
      add: r_def x_def)
  then have "r \<le> 1 / x + (1 / x) / 2 ^ 24" by linarith
  then have "r * c \<le> (1 / x + (1 / x) / 2 ^ 24) * c" using c0 by (intro mult_right_mono)
  moreover have "(1 / x + (1 / x) / 2 ^ 24) * c \<le> (1 / x + (1 / x) / 2 ^ 24) * (x - 1)"
    using c x by (intro mult_left_mono) simp_all
  moreover have "(1 / x + (1 / x) / 2 ^ 24) * (x - 1) \<le> 1 - 1 / 2 ^ 24"
  proof -
    have "(1 / x + (1 / x) / 2 ^ 24) * (x - 1) = (x - 1) * (2 ^ 24 + 1) / (x * 2 ^ 24)"
      using x by (simp add: field_simps)
    moreover have "(x - 1) * (2 ^ 24 + 1) \<le> (1 - 1 / 2 ^ 24) * (x * 2 ^ 24)"
      using x by (simp add: algebra_simps)
    ultimately show ?thesis using x by (simp add: pos_divide_le_eq)
  qed
  ultimately have "r * c \<le> 1 - 1 / 2 ^ 24" by linarith
  then have "nearest32 (r * c) \<le> nearest32 (1 - 1 / 2 ^ 24)" by (rule nearest32_mono)
  moreover have "nearest32 (1 - 1 / 2 ^ 24) = 1 - 1 / 2 ^ 24"
    using round32_FinD(1) [OF round32_below_1] by simp
  ultimately show ?thesis by (simp add: r_def c_def x_def del: of_int_diff)
qed

lemma warp_product_edge:
  assumes "2 \<le> n_items" "n_items \<le> 2 ^ 23" "k = n_items - 1"
  shows "1 - 1 / 2 ^ 24 \<le> nearest32 (nearest32 (1 / of_int k) * of_int (n_items - 1))" and
      "nearest32 (nearest32 (1 / of_int k) * of_int (n_items - 1)) \<le> 1"
proof -
  define x where "x = real_of_int k"
  define r where "r = nearest32 (1 / x)"
  have k1: "1 \<le> k" and k23: "k \<le> 2 ^ 23" using assms by simp_all
  have x: "1 \<le> x" using of_int_bounds(1) [OF k1 k23] by (simp add: x_def)
  have c: "real_of_int (n_items - 1) = x" using assms(3) by (simp add: x_def)
  have "\<bar>r - 1 / x\<bar> \<le> (1 / x) / 2 ^ 24" using recip32(4) [OF k1 k23] by (simp add:
      r_def x_def)
  then have "\<bar>r - 1 / x\<bar> * x \<le> (1 / x) / 2 ^ 24 * x" using x by (intro
      mult_right_mono) simp_all
  moreover have "\<bar>r - 1 / x\<bar> * x = \<bar>r * x - 1\<bar>"
  proof -
    have "\<bar>r - 1 / x\<bar> * x = \<bar>(r - 1 / x) * x\<bar>" using x by (simp add: abs_mult)
    moreover have "(r - 1 / x) * x = r * x - 1" using x by (simp add: algebra_simps)
    ultimately show ?thesis by simp
  qed
  moreover have "(1 / x) / 2 ^ 24 * x = 1 / 2 ^ 24" using x by simp
  ultimately have b: "\<bar>r * x - 1\<bar> \<le> 1 / 2 ^ 24" by simp
  then have "1 - 1 / 2 ^ 24 \<le> r * x" by linarith
  then have "nearest32 (1 - 1 / 2 ^ 24) \<le> nearest32 (r * x)" by (rule nearest32_mono)
  moreover have "nearest32 (1 - 1 / 2 ^ 24) = 1 - 1 / 2 ^ 24"
    using round32_FinD(1) [OF round32_below_1] by simp
  ultimately show "1 - 1 / 2 ^ 24 \<le> nearest32 (nearest32 (1 / of_int k) * of_int (n_items -
      1))" by (simp add: r_def c x_def del: of_int_diff)
  have "r * x \<le> 1 + 1 / 2 ^ 24" using b by linarith
  then have "nearest32 (r * x) \<le> nearest32 (1 + 1 / 2 ^ 24)" by (rule nearest32_mono)
  moreover have "nearest32 (1 + 1 / 2 ^ 24) = 1"
    using round32_FinD(1) [OF round32_tie_above_1] by simp
  ultimately show "nearest32 (nearest32 (1 / of_int k) * of_int (n_items - 1)) \<le> 1" by (simp
      add: r_def c x_def del: of_int_diff)
qed

lemma warp_product_antimono:
  assumes "2 \<le> n_items" "1 \<le> k" "k \<le> k'"
  shows "nearest32 (nearest32 (1 / of_int k') * of_int (n_items - 1)) \<le> nearest32 (nearest32 (1
      / of_int k) * of_int (n_items - 1))"
proof -
  have "real_of_int k \<le> real_of_int k'" "0 < real_of_int k" using assms by simp_all
  then have "1 / real_of_int k' \<le> 1 / real_of_int k" by (simp add: frac_le)
  then have "nearest32 (1 / real_of_int k') \<le> nearest32 (1 / real_of_int k)"
    by (rule nearest32_mono)
  moreover have "0 \<le> real_of_int (n_items - 1)" using assms(1) by simp
  ultimately have "nearest32 (1 / real_of_int k') * real_of_int (n_items - 1)
                     \<le> nearest32 (1 / real_of_int k) * real_of_int (n_items - 1)"
    by (rule mult_right_mono)
  then show ?thesis by (rule nearest32_mono)
qed

lemma round32_upto_pow2_24:
  assumes "0 \<le> x" "x \<le> 2 ^ 24"
  shows "round32 x = Fin (nearest32 x)" and "0 \<le> nearest32 x" and "nearest32 x \<le> 2 ^ 24"
proof -
  show nn: "0 \<le> nearest32 x" using assms(1) by (rule nearest32_nonneg)
  have "nearest32 x \<le> nearest32 (2 ^ 24)" using assms(2) by (rule nearest32_mono)
  then show up: "nearest32 x \<le> 2 ^ 24" using round32_FinD(1) [OF round32_pow2_24] by simp
  have "(2::real) ^ 24 < pow2 128" by (simp add: pow2_def)
  then show "round32 x = Fin (nearest32 x)"
    using nn up pow2_pos [of 128] by (simp add: round32_def Let_def)
qed

lemma warp_divisor:
  assumes "2 \<le> n_items" "n_items \<le> 2 ^ 23"
  shows "float32_of (np_log n_items) = Fin (nearest32 (ln (of_int n_items)))"
    and "1 / 2 \<le> nearest32 (ln (of_int n_items))"
proof -
  define x where "x = real_of_int n_items"
  have x: "2 \<le> x" "x \<le> 2 ^ 23" using of_int_bounds [OF assms] by (simp_all add: x_def)
  have "ln 2 \<le> ln x" using x by simp
  then have lo: "1 / 2 \<le> ln x" using ln_2_ge_half by linarith
  have "ln x \<le> x - 1" using x by (intro ln_le_minus_one) simp
  then have hi: "ln x \<le> 2 ^ 24" using x by simp
  have "nearest32 (1 / 2) \<le> nearest32 (ln x)" using lo by (rule nearest32_mono)
  then show "1 / 2 \<le> nearest32 (ln (of_int n_items))"
    using round32_FinD(1) [OF round32_half] by (simp add: x_def)
  have "round32 (ln x) = Fin (nearest32 (ln x))" using lo hi by (intro round32_upto_pow2_24)
      simp_all
  then show "float32_of (np_log n_items) = Fin (nearest32 (ln (of_int n_items)))"
    using assms(1) by (simp add: np_log_def x_def)
qed

text \<open>The weight of an integer attempt count: minus infinity when the logarithm receives 0.\<close>

lemma warp_weight1_count:
  assumes "2 \<le> n_items" "n_items \<le> 2 ^ 23" "1 \<le> k" "k \<le> 2 ^ 23"
  shows "warp_weight1 n_items (round32 (of_int k)) = (if \<lfloor>nearest32 (nearest32 (1 / of_int
      k) * of_int (n_items - 1))\<rfloor> = 0 then NInf else Fin (nearest32 (nearest32 (ln (of_int
          \<lfloor>nearest32 (nearest32 (1 / of_int k) * of_int (n_items - 1))\<rfloor>)) /
              nearest32 (ln (of_int n_items)))))"
    and "0 \<le> nearest32 (nearest32 (ln (of_int \<lfloor>nearest32 (nearest32 (1 / of_int k) *
        of_int (n_items - 1))\<rfloor>)) / nearest32 (ln (of_int n_items)))"
proof -
  define a where "a = \<lfloor>nearest32 (nearest32 (1 / of_int k) * of_int (n_items - 1))\<rfloor>"
  define d where "d = nearest32 (ln (real_of_int n_items))"
  define l where "l = nearest32 (ln (real_of_int a))"
  note p = warp_product [OF assms]
  have a0: "0 \<le> a" using p(1) by (simp add: a_def)
  have "a \<le> n_items - 1" using p(2) unfolding a_def by (simp only: floor_le_iff)
  then have "a \<le> 2 ^ 23" using assms(2) by simp
  then have a23: "real_of_int a \<le> 2 ^ 23" using of_int_bounds(2) [OF a0] by simp
  have arg: "warp_log_arg n_items (round32 (of_int k)) = Fin (of_int a)" using p(3) by (simp only:
      a_def)
  have d: "float32_of (np_log n_items) = Fin d" "1 / 2 \<le> d"
    using warp_divisor [OF assms(1,2)] by (simp_all add: d_def)
  have l0: "0 \<le> l" and l23: "l \<le> 2 ^ 23"
  proof -
    show "0 \<le> l"
    proof (cases "a = 0")
      case True
      then show ?thesis by (simp add: l_def nearest32_def)
    next
      case False
      then have "0 \<le> ln (real_of_int a)" using a0 by simp
      then show ?thesis unfolding l_def by (rule nearest32_nonneg)
    qed
    show "l \<le> 2 ^ 23"
    proof (cases "a = 0")
      case True
      then show ?thesis by (simp add: l_def nearest32_def)
    next
      case False
      then have "0 < real_of_int a" using a0 by simp
      then have "ln (real_of_int a) \<le> real_of_int a - 1" by (rule ln_le_minus_one)
      then have "ln (real_of_int a) \<le> 2 ^ 23" using a23 by linarith
      then have "nearest32 (ln (real_of_int a)) \<le> nearest32 (2 ^ 23)" by (rule nearest32_mono)
      moreover have "nearest32 (2 ^ 23 :: real) = 2 ^ 23" using nearest32_int [of "2 ^ 23"] by simp
      ultimately show ?thesis by (simp add: l_def)
    qed
  qed
  have q0: "0 \<le> l / d" using l0 d(2) by simp
  have "l / d \<le> l / (1 / 2)" using l0 d(2) by (intro divide_left_mono) simp_all
  then have q24: "l / d \<le> 2 ^ 24" using l23 by simp
  note w = round32_upto_pow2_24 [OF q0 q24]
  show "0 \<le> nearest32 (nearest32 (ln (of_int \<lfloor>nearest32 (nearest32 (1 / of_int k) *
      of_int (n_items - 1))\<rfloor>)) / nearest32 (ln (of_int n_items)))" using w(2) by (simp
          only: l_def d_def a_def)
  have "warp_weight1 n_items (round32 (of_int k)) = (if a = 0 then NInf else Fin (nearest32 (l /
      d)))"
  proof (cases "a = 0")
    case True
    then show ?thesis using arg d by (simp add: warp_weight1_def)
  next
    case False
    then have pos: "0 < real_of_int a" using a0 by simp
    have "0 \<le> ln (real_of_int a)" using False a0 by simp
    moreover have "ln (real_of_int a) \<le> 2 ^ 24"
      using ln_le_minus_one [OF pos] a23 by simp
    ultimately have "round32 (ln (real_of_int a)) = Fin l"
      unfolding l_def by (rule round32_upto_pow2_24(1))
    then show ?thesis using arg d pos w(1) False by (simp add: warp_weight1_def)
  qed
  then show "warp_weight1 n_items (round32 (of_int k)) = (if \<lfloor>nearest32 (nearest32 (1 /
      of_int k) * of_int (n_items - 1))\<rfloor> = 0 then NInf else Fin (nearest32 (nearest32 (ln
          (of_int \<lfloor>nearest32 (nearest32 (1 / of_int k) * of_int (n_items - 1))\<rfloor>)) /
              nearest32 (ln (of_int n_items)))))"
    by (simp only: l_def d_def a_def)
qed

lemma warp_weight1_antimono:
  assumes "2 \<le> n_items" "n_items \<le> 2 ^ 23" "1 \<le> k" "k \<le> k'" "k' \<le> 2 ^ 23"
  shows "fle (warp_weight1 n_items (round32 (of_int k'))) (warp_weight1 n_items (round32 (of_int
      k)))"
proof -
  define a where "a = \<lfloor>nearest32 (nearest32 (1 / of_int k) * of_int (n_items - 1))\<rfloor>"
  define a' where "a' = \<lfloor>nearest32 (nearest32 (1 / of_int k') * of_int (n_items -
      1))\<rfloor>"
  define d where "d = nearest32 (ln (real_of_int n_items))"
  have k23: "k \<le> 2 ^ 23" and k'1: "1 \<le> k'" using assms by simp_all
  have "a' \<le> a"
    unfolding a_def a'_def using warp_product_antimono [OF assms(1,3,4)] by (rule floor_mono)
  moreover have "0 \<le> a'" using warp_product(1) [OF assms(1,2) k'1 assms(5)] by (simp add:
      a'_def)
  ultimately have aa: "0 \<le> a'" "a' \<le> a" by simp_all
  have d: "0 < d" using warp_divisor(2) [OF assms(1,2)] by (simp add: d_def)
  note w = warp_weight1_count(1) [OF assms(1,2,3) k23, folded a_def d_def]
  note w' = warp_weight1_count(1) [OF assms(1,2) k'1 assms(5), folded a'_def d_def]
  show ?thesis
  proof (cases "a' = 0")
    case True
    then show ?thesis unfolding w w' by (cases "a = 0") simp_all
  next
    case False
    then have pos: "0 < real_of_int a'" "real_of_int a' \<le> real_of_int a" "a \<noteq> 0"
      using aa by simp_all
    then have "ln (real_of_int a') \<le> ln (real_of_int a)" by simp
    then have "nearest32 (ln (real_of_int a')) \<le> nearest32 (ln (real_of_int a))"
      by (rule nearest32_mono)
    then have "nearest32 (ln (real_of_int a')) / d \<le> nearest32 (ln (real_of_int a)) / d"
      using d by (intro divide_right_mono) simp_all
    then have "nearest32 (nearest32 (ln (real_of_int a')) / d)
                 \<le> nearest32 (nearest32 (ln (real_of_int a)) / d)"
      by (rule nearest32_mono)
    then show ?thesis unfolding w w' using False pos(3) by simp
  qed
qed

lemma warp_weight1_inside:
  assumes "2 \<le> n_items" "n_items \<le> 2 ^ 23" "1 \<le> k" "k \<le> n_items - 2"
  shows "\<exists>a w. warp_log_arg n_items (round32 (of_int k)) = Fin a \<and> 1 \<le> a
           \<and> warp_weight1 n_items (round32 (of_int k)) = Fin w \<and> 0 \<le> w"
proof -
  have k23: "k \<le> 2 ^ 23" using assms by simp
  have "1 \<le> nearest32 (nearest32 (1 / of_int k) * of_int (n_items - 1))" using assms by (rule
      warp_product_inside)
  then have a: "1 \<le> \<lfloor>nearest32 (nearest32 (1 / of_int k) * of_int (n_items -
      1))\<rfloor>" by simp
  have nz: "\<lfloor>nearest32 (nearest32 (1 / of_int k) * of_int (n_items - 1))\<rfloor> \<noteq>
      0" using a by linarith
  have wv: "warp_weight1 n_items (round32 (of_int k)) = Fin (nearest32 (nearest32 (ln (of_int
      \<lfloor>nearest32 (nearest32 (1 / of_int k) * of_int (n_items - 1))\<rfloor>)) / nearest32
          (ln (of_int n_items))))"
    using nz by (simp only: warp_weight1_count(1) [OF assms(1,2,3) k23] if_False)
  have a1: "1 \<le> real_of_int (\<lfloor>nearest32 (nearest32 (1 / of_int k) * of_int (n_items -
      1))\<rfloor>)"
  proof -
    have "real_of_int 1 \<le> real_of_int (\<lfloor>nearest32 (nearest32 (1 / of_int k) * of_int
        (n_items - 1))\<rfloor>)" using a by (simp only: of_int_le_iff)
    then show ?thesis by simp
  qed
  show ?thesis
    using warp_product(3) [OF assms(1,2,3) k23] warp_weight1_count(2) [OF assms(1,2,3) k23] wv a1
    by blast
qed

lemma warp_weight1_beyond:
  assumes "2 \<le> n_items" "n_items \<le> k" "k \<le> 2 ^ 23"
  shows "warp_log_arg n_items (round32 (of_int k)) = Fin 0"
    and "warp_weight1 n_items (round32 (of_int k)) = NInf"
proof -
  have k1: "1 \<le> k" and n23: "n_items \<le> 2 ^ 23" using assms by simp_all
  have "nearest32 (nearest32 (1 / of_int k) * of_int (n_items - 1)) \<le> 1 - 1 / 2 ^ 24" using
      assms by (rule warp_product_beyond)
  then have "nearest32 (nearest32 (1 / of_int k) * of_int (n_items - 1)) < 1" by simp
  moreover have "0 \<le> nearest32 (nearest32 (1 / of_int k) * of_int (n_items - 1))" using
      warp_product(1) [OF assms(1) n23 k1 assms(3)] .
  ultimately have a: "\<lfloor>nearest32 (nearest32 (1 / of_int k) * of_int (n_items - 1))\<rfloor>
      = 0" by (simp add: floor_eq_iff del: of_int_diff)
  show "warp_log_arg n_items (round32 (of_int k)) = Fin 0"
    using warp_product(3) [OF assms(1) n23 k1 assms(3)] by (simp only: a of_int_0)
  show "warp_weight1 n_items (round32 (of_int k)) = NInf"
    using warp_weight1_count(1) [OF assms(1) n23 k1 assms(3)] by (simp only: a simp_thms if_True)
qed

lemma warp_weight1_edge:
  assumes "2 \<le> n_items" "n_items \<le> 2 ^ 23" "k = n_items - 1"
  shows "(warp_log_arg n_items (round32 (of_int k)) = Fin 1
            \<and> warp_weight1 n_items (round32 (of_int k)) = Fin 0)
       \<or> (warp_log_arg n_items (round32 (of_int k)) = Fin 0
            \<and> warp_weight1 n_items (round32 (of_int k)) = NInf)"
proof -
  have k1: "1 \<le> k" and k23: "k \<le> 2 ^ 23" using assms by simp_all
  note e = warp_product_edge [OF assms]
  note arg = warp_product(3) [OF assms(1,2) k1 k23]
  note w = warp_weight1_count(1) [OF assms(1,2) k1 k23]
  show ?thesis
  proof (cases "nearest32 (nearest32 (1 / of_int k) * of_int (n_items - 1)) = 1")
    case True
    then have a: "\<lfloor>nearest32 (nearest32 (1 / of_int k) * of_int (n_items - 1))\<rfloor> =
        1" by (simp only: floor_one)
    have "warp_log_arg n_items (round32 (of_int k)) = Fin 1" using arg by (simp only: a of_int_1)
    moreover have "warp_weight1 n_items (round32 (of_int k)) = Fin 0"
      using w by (simp only: a) (simp add: nearest32_def)
    ultimately show ?thesis by blast
  next
    case False
    then have "nearest32 (nearest32 (1 / of_int k) * of_int (n_items - 1)) < 1" using e(2) by simp
    moreover have "0 \<le> nearest32 (nearest32 (1 / of_int k) * of_int (n_items - 1))" using e(1)
        by simp
    ultimately have a: "\<lfloor>nearest32 (nearest32 (1 / of_int k) * of_int (n_items -
        1))\<rfloor> = 0" by (simp add: floor_eq_iff del: of_int_diff)
    have "warp_log_arg n_items (round32 (of_int k)) = Fin 0" using arg by (simp only: a of_int_0)
    moreover have "warp_weight1 n_items (round32 (of_int k)) = NInf" using w by (simp only: a
        simp_thms if_True)
    ultimately show ?thesis by blast
  qed
qed

lemma warp_weight1_first:
  assumes "2 \<le> n_items" "n_items \<le> 2 ^ 23"
  shows "fle (Fin 0) (warp_weight1 n_items (round32 (of_int 1)))"
proof -
  define c where "c = real_of_int (n_items - 1)"
  have one: "nearest32 1 = 1" using nearest32_int [of 1] by simp
  have "nearest32 c = c" unfolding c_def using assms by (intro nearest32_int) simp
  then have y: "nearest32 (nearest32 (1 / of_int 1) * of_int (n_items - 1)) = of_int (n_items - 1)"
    by (simp add: one c_def del: of_int_diff)
  have a: "\<lfloor>nearest32 (nearest32 (1 / of_int 1) * of_int (n_items - 1))\<rfloor> \<noteq> 0"
    unfolding y using assms(1) by (simp del: of_int_diff)
  show ?thesis
    using warp_weight1_count [OF assms, of 1] a by simp
qed

lemma warp_weight_nth:
  assumes "i < length nsamp"
  shows "FloatTensor nsamp ! i = round32 (of_int (nsamp ! i))"
    and "warp_weight n_items (FloatTensor nsamp) ! i = warp_weight1 n_items (round32 (of_int (nsamp
        ! i)))"
  using assms by (simp_all add: FloatTensor_def warp_weight_def)

text \<open>
  Claim C1, as amended. \<open>warp_weight\<close> does not clamp the argument of its logarithm.
  For a catalog of \<open>2 \<le> n_items \<le> 2^23\<close> items and attempt counts \<open>1 \<le> nsamp \<le> 2^23\<close>:
  when \<open>nsamp \<le> n_items - 2\<close> the logarithm receives a number \<open>\<ge> 1\<close> and the weight is
  finite and non-negative; when \<open>nsamp \<ge> n_items\<close> it receives 0 and the weight is minus
  infinity; at \<open>nsamp = n_items - 1\<close> the float32 product \<open>nsamp.reciprocal() * (n_items - 1)\<close>
  decides: the logarithm receives 1 (weight 0) or 0 (weight minus infinity).
\<close>
theorem warp_weight_unclamped:
  assumes "2 \<le> n_items" "n_items \<le> 2 ^ 23" "list_all (\<lambda>k. 1 \<le> k \<and> k \<le>
      2 ^ 23) nsamp"
  shows "length (warp_weight n_items (FloatTensor nsamp)) = length nsamp
       \<and> (\<forall>i<length nsamp.
             (nsamp ! i \<le> n_items - 2 \<longrightarrow>
                (\<exists>a w. warp_log_arg n_items (FloatTensor nsamp ! i) = Fin a \<and> 1 \<le> a
                      \<and> warp_weight n_items (FloatTensor nsamp) ! i = Fin w \<and> 0 \<le> w))
           \<and> (nsamp ! i = n_items - 1 \<longrightarrow>
                (warp_log_arg n_items (FloatTensor nsamp ! i) = Fin 1
                   \<and> warp_weight n_items (FloatTensor nsamp) ! i = Fin 0)
              \<or> (warp_log_arg n_items (FloatTensor nsamp ! i) = Fin 0
                   \<and> warp_weight n_items (FloatTensor nsamp) ! i = NInf))
           \<and> (n_items \<le> nsamp ! i \<longrightarrow>
                warp_log_arg n_items (FloatTensor nsamp ! i) = Fin 0
              \<and> warp_weight n_items (FloatTensor nsamp) ! i = NInf))"
proof (intro conjI allI impI)
  show "length (warp_weight n_items (FloatTensor nsamp)) = length nsamp"
    by (simp add: warp_weight_def FloatTensor_def)
next
  fix i assume i: "i < length nsamp" and "nsamp ! i \<le> n_items - 2"
  moreover have "1 \<le> nsamp ! i" using assms(3) i by (simp add: list_all_length)
  ultimately show "\<exists>a w. warp_log_arg n_items (FloatTensor nsamp ! i) = Fin a \<and> 1
      \<le> a
                      \<and> warp_weight n_items (FloatTensor nsamp) ! i = Fin w \<and> 0 \<le> w"
    using warp_weight1_inside [OF assms(1,2), of "nsamp ! i"]
    by (simp only: warp_weight_nth [OF i])
next
  fix i assume i: "i < length nsamp" and "nsamp ! i = n_items - 1"
  then show "(warp_log_arg n_items (FloatTensor nsamp ! i) = Fin 1
                   \<and> warp_weight n_items (FloatTensor nsamp) ! i = Fin 0)
              \<or> (warp_log_arg n_items (FloatTensor nsamp ! i) = Fin 0
                   \<and> warp_weight n_items (FloatTensor nsamp) ! i = NInf)"
    using warp_weight1_edge [OF assms(1,2), of "nsamp ! i"]
    by (simp only: warp_weight_nth [OF i])
next
  fix i assume i: "i < length nsamp" and n: "n_items \<le> nsamp ! i"
  have k: "nsamp ! i \<le> 2 ^ 23" using assms(3) i by (simp add: list_all_length)
  show "warp_log_arg n_items (FloatTensor nsamp ! i) = Fin 0"
    using warp_weight1_beyond(1) [OF assms(1) n k] by (simp only: warp_weight_nth [OF i])
  show "warp_weight n_items (FloatTensor nsamp) ! i = NInf"
    using warp_weight1_beyond(2) [OF assms(1) n k] by (simp only: warp_weight_nth [OF i])
qed

text \<open>Some products evaluated: \<open>41.reciprocal() * 41\<close> falls below 1 and
  \<open>41.reciprocal() * 82\<close> below 2.\<close>

lemma nearest32_recip_41: "nearest32 (1 / 41) = 13094412 / 2 ^ 29"
proof -
  have "nearest32 (1 / 41)
          = of_int (round_half_even ((1 / 41) / pow2 (- 6 - 23))) * pow2 (- 6 - 23)"
    by (rule nearest32_eval) (simp_all add: pow2_def)
  also have "\<dots> = 13094412 / 2 ^ 29" by (simp add: pow2_def round_half_even_def)
  finally show ?thesis .
qed

lemma warp_product_42_41: "nearest32 (nearest32 (1 / of_int 41) * of_int (42 - 1)) = 16777215 / 2 ^
    24"
proof -
  have "nearest32 (13094412 / 2 ^ 29 * 41)
          = of_int (round_half_even ((13094412 / 2 ^ 29 * 41) / pow2 (- 1 - 23))) * pow2 (- 1 - 23)"
    by (rule nearest32_eval) (simp_all add: pow2_def)
  also have "\<dots> = 16777215 / 2 ^ 24" by (simp add: pow2_def round_half_even_def)
  finally show ?thesis by (simp add: nearest32_recip_41)
qed

lemma warp_log_arg_83_41: "warp_log_arg 83 (round32 (of_int 41)) = Fin 1"
proof -
  have "nearest32 (13094412 / 2 ^ 29 * 82)
          = of_int (round_half_even ((13094412 / 2 ^ 29 * 82) / pow2 (0 - 23))) * pow2 (0 - 23)"
    by (rule nearest32_eval) (simp_all add: pow2_def)
  also have "\<dots> = 16777215 / 2 ^ 23" by (simp add: pow2_def round_half_even_def)
  finally have "nearest32 (nearest32 (1 / of_int 41) * of_int (83 - 1)) = 16777215 / 2 ^ 23"
    by (simp add: nearest32_recip_41)
  then show ?thesis using warp_product(3) [of 83 41] by (simp only:) simp
qed

lemma nearest32_recip_100: "nearest32 (1 / 100) = 10737418 / 2 ^ 30"
proof -
  have "nearest32 (1 / 100)
          = of_int (round_half_even ((1 / 100) / pow2 (- 7 - 23))) * pow2 (- 7 - 23)"
    by (rule nearest32_eval) (simp_all add: pow2_def)
  also have "\<dots> = 10737418 / 2 ^ 30" by (simp add: pow2_def round_half_even_def)
  finally show ?thesis .
qed

lemma warp_product_1683_100:
  "nearest32 (nearest32 (1 / of_int 100) * of_int (1683 - 1)) = 8818524 / 2 ^ 19"
proof -
  have "nearest32 (10737418 / 2 ^ 30 * 1682)
          = of_int (round_half_even ((10737418 / 2 ^ 30 * 1682) / pow2 (4 - 23))) * pow2 (4 - 23)"
    by (rule nearest32_eval) (simp_all add: pow2_def)
  also have "\<dots> = 8818524 / 2 ^ 19" by (simp add: pow2_def round_half_even_def)
  finally show ?thesis by (simp add: nearest32_recip_100)
qed

lemma warp_log_arg_1683_100: "warp_log_arg 1683 (round32 (of_int 100)) = Fin 16"
  using warp_product(3) [of 1683 100] by (simp only: warp_product_1683_100) simp

lemma warp_log_arg_42_41: "warp_log_arg 42 (round32 (of_int 41)) = Fin 0"
  using warp_product(3) [of 42 41] by (simp only: warp_product_42_41) simp

lemma warp_weight1_42_41: "warp_weight1 42 (round32 (of_int 41)) = NInf"
  using warp_weight1_count(1) [of 42 41] by (simp only: warp_product_42_41) simp

theorem warp_weight_unclamped_witness:
  "(2::int) \<le> 1683 \<and> (1683::int) \<le> 2 ^ 23
   \<and> list_all (\<lambda>k. 1 \<le> k \<and> k \<le> 2 ^ 23) [100, 1682, 2000 :: int]
   \<and> warp_log_arg 1683 (FloatTensor [100, 1682, 2000] ! 0) = Fin 16
   \<and> (\<exists>w. warp_weight 1683 (FloatTensor [100, 1682, 2000]) ! 0 = Fin w \<and> 0 \<le>
       w)
   \<and> (warp_weight 1683 (FloatTensor [100, 1682, 2000]) ! 1 = Fin 0
        \<or> warp_weight 1683 (FloatTensor [100, 1682, 2000]) ! 1 = NInf)
   \<and> warp_log_arg 1683 (FloatTensor [100, 1682, 2000] ! 2) = Fin 0
   \<and> warp_weight 1683 (FloatTensor [100, 1682, 2000]) ! 2 = NInf"
proof -
  have h: "(2::int) \<le> 1683" "(1683::int) \<le> 2 ^ 23"
    "list_all (\<lambda>k. 1 \<le> k \<and> k \<le> 2 ^ 23) [100, 1682, 2000 :: int]" by simp_all
  note t = warp_weight_unclamped [OF h, THEN conjunct2, rule_format]
  have "(100::int) \<le> 1683 - 2" "(0::nat) < length [100, 1682, 2000 :: int]" by simp_all
  then have a: "\<exists>w. warp_weight 1683 (FloatTensor [100, 1682, 2000]) ! 0 = Fin w \<and> 0
      \<le> w"
    using t [of 0, THEN conjunct1] by auto
  have b: "warp_weight 1683 (FloatTensor [100, 1682, 2000]) ! 1 = Fin 0
        \<or> warp_weight 1683 (FloatTensor [100, 1682, 2000]) ! 1 = NInf"
    using t [of 1, THEN conjunct2, THEN conjunct1] by auto
  have c: "warp_log_arg 1683 (FloatTensor [100, 1682, 2000] ! 2) = Fin 0
   \<and> warp_weight 1683 (FloatTensor [100, 1682, 2000]) ! 2 = NInf"
    using t [of 2, THEN conjunct2, THEN conjunct2] by simp
  have d: "warp_log_arg 1683 (FloatTensor [100, 1682, 2000] ! 0) = Fin 16"
    using warp_log_arg_1683_100 by (simp add: FloatTensor_def)
  show ?thesis using h a b c d by blast
qed

text \<open>
  Claim C1 as stated fails: with a catalog of 3 items and the attempt count 3 (allowed
  by the default cap of 100) the logarithm receives 0 and the weight is minus infinity.
\<close>
theorem warp_weight_clamp_counterexample:
  "warp_log_arg 3 (FloatTensor [3] ! 0) = Fin 0 \<and> warp_weight 3 (FloatTensor [3]) = [NInf]"
  using warp_weight1_beyond [of 3 3] by (simp add: FloatTensor_def warp_weight_def)

text \<open>
  Claim C3, as amended. For \<open>2 \<le> n_items \<le> 2^23\<close> and attempt counts of \<open>[1, 2^23]\<close> the
  WARP weight is non-increasing in the attempt count (minus infinity counted below every
  number); it is non-negative at 1 and up to \<open>n_items - 2\<close>; at \<open>n_items - 1\<close> it is 0 or
  minus infinity.
\<close>
theorem warp_weight_antimono:
  assumes "2 \<le> n_items" "n_items \<le> 2 ^ 23" "list_all (\<lambda>k. 1 \<le> k \<and> k \<le>
      2 ^ 23) nsamp"
  shows "(\<forall>i<length nsamp. \<forall>j<length nsamp.
            nsamp ! i \<le> nsamp ! j \<longrightarrow>
              fle (warp_weight n_items (FloatTensor nsamp) ! j)
                  (warp_weight n_items (FloatTensor nsamp) ! i))
       \<and> (\<forall>i<length nsamp.
             (nsamp ! i = 1 \<or> nsamp ! i \<le> n_items - 2 \<longrightarrow>
                fle (Fin 0) (warp_weight n_items (FloatTensor nsamp) ! i))
           \<and> (nsamp ! i = n_items - 1 \<longrightarrow>
                warp_weight n_items (FloatTensor nsamp) ! i = Fin 0
              \<or> warp_weight n_items (FloatTensor nsamp) ! i = NInf))"
proof (intro conjI allI impI)
  fix i j assume i: "i < length nsamp" and j: "j < length nsamp" and le: "nsamp ! i \<le> nsamp ! j"
  have "1 \<le> nsamp ! i" "nsamp ! j \<le> 2 ^ 23" using assms(3) i j by (simp_all add:
      list_all_length)
  then show "fle (warp_weight n_items (FloatTensor nsamp) ! j)
                 (warp_weight n_items (FloatTensor nsamp) ! i)"
    using warp_weight1_antimono [OF assms(1,2) _ le]
    by (simp only: warp_weight_nth [OF i] warp_weight_nth [OF j])
next
  fix i assume i: "i < length nsamp" and c: "nsamp ! i = 1 \<or> nsamp ! i \<le> n_items - 2"
  have k: "1 \<le> nsamp ! i" using assms(3) i by (simp add: list_all_length)
  from c show "fle (Fin 0) (warp_weight n_items (FloatTensor nsamp) ! i)"
  proof
    assume "nsamp ! i = 1"
    then show ?thesis
      using warp_weight1_first [OF assms(1,2)] by (simp only: warp_weight_nth [OF i])
  next
    assume "nsamp ! i \<le> n_items - 2"
    then obtain w where "warp_weight1 n_items (round32 (of_int (nsamp ! i))) = Fin w" "0 \<le> w"
      using warp_weight1_inside [OF assms(1,2) k] by blast
    then show ?thesis by (simp add: warp_weight_nth [OF i])
  qed
next
  fix i assume i: "i < length nsamp" and "nsamp ! i = n_items - 1"
  then show "warp_weight n_items (FloatTensor nsamp) ! i = Fin 0
              \<or> warp_weight n_items (FloatTensor nsamp) ! i = NInf"
    using warp_weight1_edge [OF assms(1,2), of "nsamp ! i"]
    by (auto simp only: warp_weight_nth [OF i])
qed

lemma warp_product_5_4: "nearest32 (nearest32 (1 / of_int 4) * of_int (5 - 1)) = 1"
proof -
  have "nearest32 (1 / 4) = 1 / 4"
    by (rule nearest32_fix [of "- 2" _ "2 ^ 23"]) (simp_all add: pow2_def)
  moreover have "nearest32 1 = 1" using nearest32_int [of 1] by simp
  ultimately show ?thesis by simp
qed

lemma warp_weight1_5_4: "warp_weight1 5 (round32 (of_int 4)) = Fin 0"
  using warp_weight1_count(1) [of 5 4] by (simp only: warp_product_5_4) (simp add: nearest32_def)

theorem warp_weight_antimono_witness:
  "(2::int) \<le> 5 \<and> (5::int) \<le> 2 ^ 23 \<and> list_all (\<lambda>k. 1 \<le> k \<and> k
      \<le> 2 ^ 23) [1, 2, 4 :: int]
   \<and> fle (warp_weight 5 (FloatTensor [1, 2, 4]) ! 2) (warp_weight 5 (FloatTensor [1, 2, 4]) !
       1)
   \<and> fle (warp_weight 5 (FloatTensor [1, 2, 4]) ! 1) (warp_weight 5 (FloatTensor [1, 2, 4]) !
       0)
   \<and> fle (Fin 0) (warp_weight 5 (FloatTensor [1, 2, 4]) ! 0)
   \<and> fle (Fin 0) (warp_weight 5 (FloatTensor [1, 2, 4]) ! 1)
   \<and> warp_weight 5 (FloatTensor [1, 2, 4]) ! 2 = Fin 0"
proof -
  have h: "(2::int) \<le> 5" "(5::int) \<le> 2 ^ 23"
    "list_all (\<lambda>k. 1 \<le> k \<and> k \<le> 2 ^ 23) [1, 2, 4 :: int]" by simp_all
  note m = warp_weight_antimono [OF h, THEN conjunct1, rule_format]
  note r = warp_weight_antimono [OF h, THEN conjunct2, rule_format]
  have a: "fle (warp_weight 5 (FloatTensor [1, 2, 4]) ! 2) (warp_weight 5 (FloatTensor [1, 2, 4]) !
      1)"
    using m [of 1 2] by simp
  have b: "fle (warp_weight 5 (FloatTensor [1, 2, 4]) ! 1) (warp_weight 5 (FloatTensor [1, 2, 4]) !
      0)"
    using m [of 0 1] by simp
  have c: "fle (Fin 0) (warp_weight 5 (FloatTensor [1, 2, 4]) ! 0)"
    using r [of 0, THEN conjunct1] by simp
  have d: "fle (Fin 0) (warp_weight 5 (FloatTensor [1, 2, 4]) ! 1)"
    using r [of 1, THEN conjunct1] by simp
  have e: "warp_weight 5 (FloatTensor [1, 2, 4]) ! 2 = Fin 0"
    using warp_weight1_5_4 by (simp add: warp_weight_def FloatTensor_def)
  show ?thesis using h a b c d e by blast
qed

text \<open>
  Claim C3 as stated fails: with 42 items and the attempt count 41 the float32 product
  \<open>41.reciprocal() * 41\<close> is below 1, the logarithm receives 0, and the weight is minus
  infinity instead of 0.
\<close>
theorem warp_weight_edge_counterexample:
  "warp_log_arg 42 (FloatTensor [41] ! 0) = Fin 0 \<and> warp_weight 42 (FloatTensor [41]) = [NInf]
   \<and> \<not> fle (Fin 0) (warp_weight 42 (FloatTensor [41]) ! 0)"
  using warp_log_arg_42_41 warp_weight1_42_41 by (simp add: FloatTensor_def warp_weight_def)

subsection \<open>The hinge and the sigmoid loss\<close>

lemma round32_cases:
  obtains y where "round32 x = Fin y" "y = nearest32 x" | "round32 x = PInf" | "round32 x = NInf"
  by (cases "round32 x") (auto simp: round32_def Let_def split: if_splits)

lemma round32_nonneg:
  assumes "0 \<le> x"
  shows "fle (Fin 0) (round32 x)"
  using round32_mono [OF assms] by simp

lemma round32_nonpos:
  assumes "x \<le> 0"
  shows "fle (round32 x) (Fin 0)"
  using round32_mono [OF assms] by simp

lemma round32_unit:
  assumes "0 \<le> x" "x \<le> 1"
  shows "\<exists>y. round32 x = Fin y \<and> 0 \<le> y \<and> y \<le> 1"
proof -
  have "fle (Fin 0) (round32 x)" using assms(1) by (rule round32_nonneg)
  moreover have "fle (round32 x) (Fin 1)" using round32_mono [OF assms(2)] by simp
  ultimately show ?thesis by (rule round32_between)
qed

lemma elementwise_nth:
  assumes "length xs = length ys"
  shows "\<exists>zs. elementwise f xs ys = Inr zs \<and> length zs = length xs
           \<and> (\<forall>i<length zs. zs ! i = f (xs ! i) (ys ! i))"
  using assms by (simp add: elementwise_def)

subsubsection \<open>The hinge loss\<close>

lemma hinge_loss1_nonneg: "fle (Fin 0) (hinge_loss1 (Fin p) (Fin n))"
proof -
  obtain a where a: "fadd32 (Fin 1) (Fin n) = a" "a \<noteq> NaN"
    by (cases "round32 (1 + n)") (simp_all add: round32_def Let_def split: if_splits)
  have "fsub32 a (Fin p) \<noteq> NaN"
  proof (cases a)
    case (Fin x)
    then show ?thesis by (cases "round32 (x + - p)") (simp_all add: fsub32_def round32_def Let_def
        split: if_splits)
  qed (use a in \<open>simp_all add: fsub32_def\<close>)
  then show ?thesis
    unfolding hinge_loss1_def using a(1) by (cases "fsub32 a (Fin p)") simp_all
qed

text \<open>Every float32 is a multiple of the smallest subnormal, so a difference of two
  different float32 numbers does not underflow to zero.\<close>

lemma nearest32_grid: "\<exists>m::int. nearest32 x = of_int m * pow2 (- 149)"
proof (cases "x = 0")
  case True
  then have "nearest32 x = of_int 0 * pow2 (- 149)" by (simp add: nearest32_def)
  then show ?thesis by blast
next
  case False
  define e where "e = float32_exponent x"
  have e: "0 \<le> e + 126" using float32_exponent_ge [of x] by (simp add: e_def)
  have "e - 23 = (e + 126) + (- 149)" by simp
  then have "pow2 (e - 23) = pow2 ((e + 126) + (- 149))" by (simp only:)
  then have "pow2 (e - 23) = pow2 (e + 126) * pow2 (- 149)" by (simp only: pow2_add)
  moreover have "pow2 (e + 126) = of_int (2 ^ nat (e + 126))" using e by (simp add: pow2_def)
  ultimately have "nearest32 x
      = of_int (round_half_even (x / float32_ulp x) * 2 ^ nat (e + 126)) * pow2 (- 149)"
    using False by (simp add: nearest32_def float32_ulp_def e_def)
  then show ?thesis by blast
qed

lemma nearest32_smallest: "nearest32 (pow2 (- 149)) = pow2 (- 149)"
proof -
  have "nearest32 (pow2 (- 149))
          = of_int (round_half_even (pow2 (- 149) / pow2 (- 149))) * pow2 (- 149)"
    by (rule nearest32_eval_subnormal) (simp_all add: pow2_def)
  moreover have "pow2 (- 149) \<noteq> 0" by (metis less_irrefl pow2_pos)
  then have "pow2 (- 149) / pow2 (- 149) = of_int 1" by simp
  then have "round_half_even (pow2 (- 149) / pow2 (- 149)) = 1" by (simp only: rhe_int)
  ultimately show ?thesis by simp
qed

lemma float32_gap:
  assumes "a = nearest32 x" "p = nearest32 y" "p < a"
  shows "pow2 (- 149) \<le> a - p"
proof -
  obtain m where m: "a = of_int m * pow2 (- 149)" using nearest32_grid [of x] assms(1) by blast
  obtain k where k: "p = of_int k * pow2 (- 149)" using nearest32_grid [of y] assms(2) by blast
  have "of_int k * pow2 (- 149) < of_int m * pow2 (- 149)" using assms(3) m k by simp
  then have "real_of_int k < real_of_int m" by (simp only: mult_less_cancel_right_pos pow2_pos)
  then have "k + 1 \<le> m" by simp
  then have "real_of_int (k + 1) \<le> real_of_int m" by (simp only: of_int_le_iff)
  then have "1 \<le> real_of_int m - real_of_int k" by simp
  then have "1 * pow2 (- 149) \<le> (real_of_int m - real_of_int k) * pow2 (- 149)"
    by (simp only: mult_le_cancel_right_pos pow2_pos)
  then show ?thesis by (simp add: m k algebra_simps)
qed

lemma hinge_loss1_zero_iff:
  assumes "is_float32 p"
  shows "hinge_loss1 (Fin p) (Fin n) = Fin 0 \<longleftrightarrow> fle (fadd32 (Fin 1) (Fin n))
      (Fin p)"
proof (cases "round32 (1 + n)")
  case (Fin a)
  have a: "a = nearest32 (1 + n)" using round32_FinD(1) [OF Fin] .
  have p: "p = nearest32 p" using assms round32_FinD(1) [of p p] by (simp add: is_float32_def)
  show ?thesis
  proof (cases "a \<le> p")
    case True
    then have "fle (round32 (a + - p)) (Fin 0)" using round32_nonpos [of "a - p"] by simp
    then have "clamp_min (round32 (a + - p)) 0 = Fin 0" by (cases "round32 (a + - p)") simp_all
    then show ?thesis using Fin True by (simp add: hinge_loss1_def fsub32_def)
  next
    case False
    then have "pow2 (- 149) \<le> a - p" using float32_gap [OF a p] by simp
    then have "nearest32 (pow2 (- 149)) \<le> nearest32 (a - p)" by (rule nearest32_mono)
    then have "0 < nearest32 (a - p)"
      using nearest32_smallest pow2_pos [of "- 149"] by linarith
    then have pos: "0 < nearest32 (a + - p)" by simp
    have "clamp_min (round32 (a + - p)) 0 \<noteq> Fin 0"
      using pos by (simp add: round32_def Let_def)
    then show ?thesis using Fin False by (simp add: hinge_loss1_def fsub32_def)
  qed
next
  case PInf
  then show ?thesis by (simp add: hinge_loss1_def fsub32_def)
next
  case NInf
  then show ?thesis by (simp add: hinge_loss1_def fsub32_def)
next
  case NaN
  then show ?thesis by (simp add: round32_def Let_def split: if_splits)
qed

lemma hinge_loss1_zero:
  assumes "is_float32 p" "1 \<le> p - n"
  shows "hinge_loss1 (Fin p) (Fin n) = Fin 0"
proof -
  have "1 + n \<le> p" using assms(2) by simp
  then have "fle (round32 (1 + n)) (Fin p)"
    using round32_mono [of "1 + n" p] assms(1) by (simp add: is_float32_def)
  then show ?thesis using hinge_loss1_zero_iff [OF assms(1)] by simp
qed

text \<open>
  Claim C8, as amended. On float32 score tensors of equal length \<open>forward_hinge\<close> returns,
  at every position with finite scores, \<open>clamp(1.0 + neg - pos, min=0)\<close> with both
  operations rounded; this loss is never negative. It is 0 exactly when the float32 sum
  \<open>1.0 + neg\<close> is at most \<open>pos\<close>, hence whenever \<open>pos - neg \<ge> 1\<close>.
\<close>
theorem forward_hinge_nonneg:
  assumes "length pos_pred = length neg_pred"
  shows "\<exists>loss. forward_hinge pos_pred neg_pred = Inr loss \<and> length loss = length
      pos_pred
           \<and> (\<forall>i<length loss. \<forall>p n.
                 pos_pred ! i = Fin p \<and> neg_pred ! i = Fin n \<longrightarrow>
                   loss ! i = clamp_min (fsub32 (fadd32 (Fin 1) (Fin n)) (Fin p)) 0
                 \<and> fle (Fin 0) (loss ! i)
                 \<and> (is_float32 p \<longrightarrow>
                      (loss ! i = Fin 0 \<longleftrightarrow> fle (fadd32 (Fin 1) (Fin n)) (Fin p))
                    \<and> (1 \<le> p - n \<longrightarrow> loss ! i = Fin 0)))"
proof -
  obtain loss where l: "forward_hinge pos_pred neg_pred = Inr loss" "length loss = length pos_pred"
    and nth: "\<forall>i<length loss. loss ! i = hinge_loss1 (pos_pred ! i) (neg_pred ! i)"
    using elementwise_nth [OF assms, of hinge_loss1] unfolding forward_hinge_def by blast
  have "\<forall>i<length loss. \<forall>p n.
                 pos_pred ! i = Fin p \<and> neg_pred ! i = Fin n \<longrightarrow>
                   loss ! i = clamp_min (fsub32 (fadd32 (Fin 1) (Fin n)) (Fin p)) 0
                 \<and> fle (Fin 0) (loss ! i)
                 \<and> (is_float32 p \<longrightarrow>
                      (loss ! i = Fin 0 \<longleftrightarrow> fle (fadd32 (Fin 1) (Fin n)) (Fin p))
                    \<and> (1 \<le> p - n \<longrightarrow> loss ! i = Fin 0))"
  proof (intro allI impI)
    fix i p n assume i: "i < length loss" and pn: "pos_pred ! i = Fin p \<and> neg_pred ! i = Fin n"
    have eq: "loss ! i = hinge_loss1 (Fin p) (Fin n)" using nth i pn by simp
    have "loss ! i = clamp_min (fsub32 (fadd32 (Fin 1) (Fin n)) (Fin p)) 0"
      using eq by (simp add: hinge_loss1_def)
    moreover have "fle (Fin 0) (loss ! i)" unfolding eq by (rule hinge_loss1_nonneg)
    moreover have "is_float32 p \<longrightarrow>
                      (loss ! i = Fin 0 \<longleftrightarrow> fle (fadd32 (Fin 1) (Fin n)) (Fin p))
                    \<and> (1 \<le> p - n \<longrightarrow> loss ! i = Fin 0)"
      unfolding eq using hinge_loss1_zero hinge_loss1_zero_iff by blast
    ultimately show "loss ! i = clamp_min (fsub32 (fadd32 (Fin 1) (Fin n)) (Fin p)) 0
                 \<and> fle (Fin 0) (loss ! i)
                 \<and> (is_float32 p \<longrightarrow>
                      (loss ! i = Fin 0 \<longleftrightarrow> fle (fadd32 (Fin 1) (Fin n)) (Fin p))
                    \<and> (1 \<le> p - n \<longrightarrow> loss ! i = Fin 0))" by blast
  qed
  with l show ?thesis by blast
qed

lemma is_float32_int: "\<bar>n\<bar> < 2 ^ 24 \<Longrightarrow> is_float32 (of_int n)"
  by (simp add: is_float32_def round32_int)

lemma example_hinge:
  "forward_hinge [Fin 3, Fin (1 / 2)] [Fin 1, Fin 0] = Inr [Fin 0, Fin (1 / 2)]"
proof -
  have "round32 2 = Fin 2" using round32_int [of 2] by simp
  moreover have "round32 (- 1) = Fin (- 1)" using round32_int [of "- 1"] by simp
  ultimately show ?thesis
    by (simp add: forward_hinge_def elementwise_def hinge_loss1_def fsub32_def round32_half)
qed

theorem forward_hinge_nonneg_witness:
  "length [Fin 3, Fin (1 / 2)] = length [Fin 1, Fin 0]
   \<and> forward_hinge [Fin 3, Fin (1 / 2)] [Fin 1, Fin 0] = Inr [Fin 0, Fin (1 / 2)]
   \<and> is_float32 3 \<and> (1::real) \<le> 3 - 1"
  using forward_hinge_nonneg [of "[Fin 3, Fin (1 / 2)]" "[Fin 1, Fin 0]"] example_hinge
    is_float32_int [of 3]
  by simp

text \<open>\<open>1.0 + 2^-30\<close> is rounded to 1.0: the loss is 0 below the margin.\<close>

lemma round32_one_plus_tiny: "round32 (1 + 1 / 2 ^ 30) = Fin 1"
proof -
  have "nearest32 (1 + 1 / 2 ^ 30)
          = of_int (round_half_even ((1 + 1 / 2 ^ 30) / pow2 (0 - 23))) * pow2 (0 - 23)"
    by (rule nearest32_eval) (simp_all add: pow2_def)
  also have "\<dots> = 1" by (simp add: pow2_def round_half_even_def)
  finally show ?thesis by (simp add: round32_def Let_def pow2_def)
qed

lemma is_float32_tiny: "is_float32 (1 / 2 ^ 30)"
proof -
  have "nearest32 (1 / 2 ^ 30) = 1 / 2 ^ 30"
    by (rule nearest32_fix [of "- 30" _ "2 ^ 23"]) (simp_all add: pow2_def)
  then show ?thesis by (simp add: is_float32_def round32_def Let_def pow2_def)
qed

text \<open>
  Claim C8 as stated fails: for the scores \<open>pos = 1\<close> and \<open>neg = 2^-30\<close> the loss is 0
  although \<open>pos - neg < 1\<close>.
\<close>
theorem forward_hinge_margin_counterexample:
  "forward_hinge [Fin 1] [Fin (1 / 2 ^ 30)] = Inr [Fin 0]
   \<and> is_float32 1 \<and> is_float32 (1 / 2 ^ 30) \<and> \<not> (1::real) \<le> 1 - 1 / 2 ^ 30"
  using is_float32_tiny is_float32_int [of 1] round32_one_plus_tiny
  by (simp add: forward_hinge_def elementwise_def hinge_loss1_def fsub32_def)

subsubsection \<open>The sigmoid loss\<close>

lemma sigmoid_range: "0 < sigmoid x" "sigmoid x < 1"
proof -
  have e: "0 < exp (- x)" by simp
  then show "0 < sigmoid x" by (simp add: sigmoid_def add_pos_pos)
  have "1 < 1 + exp (- x)" using e by simp
  then show "sigmoid x < 1" by (simp add: sigmoid_def divide_less_eq_1_pos add_pos_pos)
qed

lemma sigmoid_mono:
  assumes "x \<le> y"
  shows "sigmoid x \<le> sigmoid y"
proof -
  have "exp (- y) \<le> exp (- x)" using assms by simp
  moreover have "0 < 1 + exp (- y)" by (simp add: add_pos_pos)
  ultimately show ?thesis unfolding sigmoid_def by (intro divide_left_mono) (simp_all add:
      add_pos_pos)
qed

lemma exp_20_ge: "2 ^ 25 \<le> exp (20::real)"
proof -
  have "1 + 1 + 1\<^sup>2 / 2 \<le> exp (1::real)" by (rule exp_lower_Taylor_quadratic) simp
  then have "5 / 2 \<le> exp (1::real)" by simp
  then have "(5 / 2) ^ 20 \<le> exp (1::real) ^ 20" by (intro power_mono) simp_all
  moreover have "exp (1::real) ^ 20 = exp (of_nat 20 * 1)" by (simp only: exp_of_nat_mult)
  moreover have "(2::real) ^ 25 \<le> (5 / 2) ^ 20" by (simp add: power_divide)
  ultimately show ?thesis by simp
qed

lemma sigmoid_low:
  assumes "x \<le> - 20"
  shows "sigmoid x \<le> 1 / 2 ^ 25"
proof -
  have "sigmoid x \<le> sigmoid (- 20)" using assms by (rule sigmoid_mono)
  also have "sigmoid (- 20) \<le> 1 / exp 20"
    unfolding sigmoid_def by (intro divide_left_mono) (simp_all add: add_pos_pos)
  also have "1 / exp (20::real) \<le> 1 / 2 ^ 25" using exp_20_ge by (intro divide_left_mono)
      simp_all
  finally show ?thesis .
qed

lemma sigmoid_symmetric: "sigmoid (- x) = 1 - sigmoid x"
proof -
  define e where "e = exp x"
  have e: "0 < e" by (simp add: e_def)
  have "exp (- x) = inverse e" unfolding e_def by (rule exp_minus)
  then have "sigmoid x = 1 / (1 + inverse e)" by (simp add: sigmoid_def)
  also have "\<dots> = e / (1 + e)" using e by (simp add: field_simps)
  finally have sx: "sigmoid x = e / (1 + e)" .
  have sn: "sigmoid (- x) = 1 / (1 + e)" by (simp add: sigmoid_def e_def)
  have "1 / (1 + e) = 1 - e / (1 + e)" using e by (simp add: field_simps)
  then show ?thesis by (simp only: sx sn)
qed

lemma sigmoid_high:
  assumes "20 \<le> x"
  shows "1 - 1 / 2 ^ 25 \<le> sigmoid x"
proof -
  have "sigmoid (- x) \<le> 1 / 2 ^ 25" using assms by (intro sigmoid_low) simp
  then show ?thesis by (simp add: sigmoid_symmetric)
qed

lemma sigmoid32_unit:
  assumes "x \<noteq> NaN"
  shows "\<exists>s. sigmoid32 x = Fin s \<and> 0 \<le> s \<and> s \<le> 1"
proof (cases x)
  case (Fin a)
  have "0 \<le> sigmoid a" "sigmoid a \<le> 1" using sigmoid_range [of a] by simp_all
  then show ?thesis using Fin round32_unit by simp
qed (use assms in simp_all)

lemma sigmoid32_mono:
  assumes "fle x y"
  shows "fle (sigmoid32 x) (sigmoid32 y)"
proof (cases x)
  case xa: (Fin a)
  show ?thesis
  proof (cases y)
    case (Fin b)
    then show ?thesis using assms xa round32_mono [OF sigmoid_mono, of a b] by simp
  next
    case PInf
    obtain s where "sigmoid32 x = Fin s" "s \<le> 1" using sigmoid32_unit [of x] xa by auto
    then show ?thesis using PInf by simp
  qed (use assms xa in simp_all)
next
  case PInf
  then show ?thesis using assms by (cases y) simp_all
next
  case NInf
  have "y \<noteq> NaN" using assms NInf by (cases y) simp_all
  then obtain s where "sigmoid32 y = Fin s" "0 \<le> s" using sigmoid32_unit [of y] by auto
  then show ?thesis using NInf by simp
next
  case NaN
  then show ?thesis using assms by simp
qed

lemma sigmoid32_high:
  assumes "fle (Fin 20) x"
  shows "sigmoid32 x = Fin 1"
proof (cases x)
  case (Fin a)
  then have "1 - 1 / 2 ^ 25 \<le> sigmoid a" using assms by (intro sigmoid_high) simp
  then have "fle (round32 (1 - 1 / 2 ^ 25)) (round32 (sigmoid a))" by (rule round32_mono)
  then have "fle (Fin 1) (sigmoid32 x)" using Fin by (simp only: round32_tie_below_1
      sigmoid32.simps)
  moreover obtain s where "sigmoid32 x = Fin s" "s \<le> 1" using sigmoid32_unit [of x] Fin by auto
  ultimately show ?thesis by simp
qed (use assms in simp_all)

lemma is_float32_tiny25: "round32 (1 / 2 ^ 25) = Fin (1 / 2 ^ 25)"
proof -
  have "nearest32 (1 / 2 ^ 25) = 1 / 2 ^ 25"
    by (rule nearest32_fix [of "- 25" _ "2 ^ 23"]) (simp_all add: pow2_def)
  then show ?thesis by (simp add: round32_def Let_def pow2_def)
qed

lemma sigmoid32_low:
  assumes "fle x (Fin (- 20))"
  shows "\<exists>s. sigmoid32 x = Fin s \<and> 0 \<le> s \<and> s \<le> 1 / 2 ^ 25"
proof (cases x)
  case (Fin a)
  then have "sigmoid a \<le> 1 / 2 ^ 25" using assms by (intro sigmoid_low) simp
  then have "fle (round32 (sigmoid a)) (round32 (1 / 2 ^ 25))" by (rule round32_mono)
  then have "fle (sigmoid32 x) (Fin (1 / 2 ^ 25))" using Fin by (simp only: is_float32_tiny25
      sigmoid32.simps)
  moreover obtain s where "sigmoid32 x = Fin s" "0 \<le> s" using sigmoid32_unit [of x] Fin by auto
  ultimately show ?thesis by simp
qed (use assms in simp_all)

lemma gap_not_NaN: "fsub32 (Fin p) (Fin n) \<noteq> NaN"
  by (simp add: fsub32_def round32_def Let_def)

lemma one_minus_unit:
  assumes "s = Fin s'" "0 \<le> s'" "s' \<le> 1"
  shows "\<exists>l. fsub32 (Fin 1) s = Fin l \<and> 0 \<le> l \<and> l \<le> 1"
proof -
  have "0 \<le> 1 - s'" "1 - s' \<le> 1" using assms by simp_all
  then show ?thesis using round32_unit [of "1 - s'"] assms(1) by (simp add: fsub32_def)
qed

lemma sigmoid_loss1_unit: "\<exists>l. sigmoid_loss1 (Fin p) (Fin n) = Fin l \<and> 0 \<le> l
    \<and> l \<le> 1"
proof -
  obtain s where "sigmoid32 (fsub32 (Fin p) (Fin n)) = Fin s" "0 \<le> s" "s \<le> 1"
    using sigmoid32_unit [OF gap_not_NaN] by blast
  then show ?thesis unfolding sigmoid_loss1_def using one_minus_unit by simp
qed

lemma sigmoid_loss1_zero:
  assumes "20 \<le> p - n"
  shows "sigmoid_loss1 (Fin p) (Fin n) = Fin 0"
proof -
  have "fle (round32 20) (round32 (p - n))" using assms by (rule round32_mono)
  moreover have "round32 20 = Fin 20" using round32_int [of 20] by simp
  ultimately have "fle (Fin 20) (fsub32 (Fin p) (Fin n))" by (simp add: fsub32_def)
  then have "sigmoid32 (fsub32 (Fin p) (Fin n)) = Fin 1" by (rule sigmoid32_high)
  then show ?thesis by (simp add: sigmoid_loss1_def fsub32_def)
qed

lemma sigmoid_loss1_one:
  assumes "p - n \<le> - 20"
  shows "sigmoid_loss1 (Fin p) (Fin n) = Fin 1"
proof -
  have "fle (round32 (p - n)) (round32 (- 20))" using assms by (rule round32_mono)
  moreover have "round32 (- 20) = Fin (- 20)" using round32_int [of "- 20"] by simp
  ultimately have "fle (fsub32 (Fin p) (Fin n)) (Fin (- 20))" by (simp add: fsub32_def)
  then obtain s where s: "sigmoid32 (fsub32 (Fin p) (Fin n)) = Fin s" "0 \<le> s" "s \<le> 1 / 2 ^
      25"
    using sigmoid32_low by blast
  have "1 - 1 / 2 ^ 25 \<le> 1 - s" using s by simp
  then have "fle (round32 (1 - 1 / 2 ^ 25)) (round32 (1 - s))" by (rule round32_mono)
  then have "fle (Fin 1) (round32 (1 - s))" by (simp only: round32_tie_below_1)
  moreover have "fle (round32 (1 - s)) (Fin 1)" using round32_mono [of "1 - s" 1] s by simp
  ultimately have "round32 (1 - s) = Fin 1" by (cases "round32 (1 - s)") simp_all
  then show ?thesis using s(1) by (simp add: sigmoid_loss1_def fsub32_def)
qed

lemma sigmoid_loss1_antimono:
  assumes "p - n \<le> p' - n'"
  shows "fle (sigmoid_loss1 (Fin p') (Fin n')) (sigmoid_loss1 (Fin p) (Fin n))"
proof -
  have "fle (round32 (p - n)) (round32 (p' - n'))" using assms by (rule round32_mono)
  then have "fle (fsub32 (Fin p) (Fin n)) (fsub32 (Fin p') (Fin n'))" by (simp add: fsub32_def)
  then have m: "fle (sigmoid32 (fsub32 (Fin p) (Fin n))) (sigmoid32 (fsub32 (Fin p') (Fin n')))"
    by (rule sigmoid32_mono)
  obtain s where s: "sigmoid32 (fsub32 (Fin p) (Fin n)) = Fin s"
    using sigmoid32_unit [OF gap_not_NaN] by blast
  obtain s' where s': "sigmoid32 (fsub32 (Fin p') (Fin n')) = Fin s'"
    using sigmoid32_unit [OF gap_not_NaN] by blast
  have "1 - s' \<le> 1 - s" using m s s' by simp
  then have "fle (round32 (1 - s')) (round32 (1 - s))" by (rule round32_mono)
  then show ?thesis using s s' by (simp add: sigmoid_loss1_def fsub32_def)
qed

text \<open>
  Claim C9, as amended. On float32 score tensors of equal length \<open>forward_sigmoid\<close>
  returns, at every position with finite scores, \<open>1 - sigmoid(pos - neg)\<close> with every
  operation rounded; the loss lies in the closed interval \<open>[0, 1]\<close>, it is exactly 0
  from the difference 20 on and exactly 1 up to the difference -20, and it is
  non-increasing in the difference \<open>pos - neg\<close>.
\<close>
theorem forward_sigmoid_range:
  assumes "length pos_pred = length neg_pred"
  shows "\<exists>loss. forward_sigmoid pos_pred neg_pred = Inr loss \<and> length loss = length
      pos_pred
           \<and> (\<forall>i<length loss. \<forall>p n.
                 pos_pred ! i = Fin p \<and> neg_pred ! i = Fin n \<longrightarrow>
                   loss ! i = fsub32 (Fin 1) (sigmoid32 (fsub32 (Fin p) (Fin n)))
                 \<and> (\<exists>l. loss ! i = Fin l \<and> 0 \<le> l \<and> l \<le> 1)
                 \<and> (20 \<le> p - n \<longrightarrow> loss ! i = Fin 0)
                 \<and> (p - n \<le> - 20 \<longrightarrow> loss ! i = Fin 1)
                 \<and> (\<forall>j<length loss. \<forall>p' n'.
                       pos_pred ! j = Fin p' \<and> neg_pred ! j = Fin n' \<and> p - n \<le> p' -
                           n' \<longrightarrow>
                         fle (loss ! j) (loss ! i)))"
proof -
  obtain loss where l: "forward_sigmoid pos_pred neg_pred = Inr loss" "length loss = length
      pos_pred"
    and nth: "\<forall>i<length loss. loss ! i = sigmoid_loss1 (pos_pred ! i) (neg_pred ! i)"
    using elementwise_nth [OF assms, of sigmoid_loss1] unfolding forward_sigmoid_def by blast
  have "\<forall>i<length loss. \<forall>p n.
                 pos_pred ! i = Fin p \<and> neg_pred ! i = Fin n \<longrightarrow>
                   loss ! i = fsub32 (Fin 1) (sigmoid32 (fsub32 (Fin p) (Fin n)))
                 \<and> (\<exists>l. loss ! i = Fin l \<and> 0 \<le> l \<and> l \<le> 1)
                 \<and> (20 \<le> p - n \<longrightarrow> loss ! i = Fin 0)
                 \<and> (p - n \<le> - 20 \<longrightarrow> loss ! i = Fin 1)
                 \<and> (\<forall>j<length loss. \<forall>p' n'.
                       pos_pred ! j = Fin p' \<and> neg_pred ! j = Fin n' \<and> p - n \<le> p' -
                           n' \<longrightarrow>
                         fle (loss ! j) (loss ! i))"
  proof (intro allI impI)
    fix i p n assume i: "i < length loss" and pn: "pos_pred ! i = Fin p \<and> neg_pred ! i = Fin n"
    have eq: "loss ! i = sigmoid_loss1 (Fin p) (Fin n)" using nth i pn by simp
    have a: "loss ! i = fsub32 (Fin 1) (sigmoid32 (fsub32 (Fin p) (Fin n)))"
      using eq by (simp add: sigmoid_loss1_def)
    have b: "\<exists>l. loss ! i = Fin l \<and> 0 \<le> l \<and> l \<le> 1" unfolding eq by (rule
        sigmoid_loss1_unit)
    have c: "20 \<le> p - n \<longrightarrow> loss ! i = Fin 0" unfolding eq using
        sigmoid_loss1_zero by blast
    have d: "p - n \<le> - 20 \<longrightarrow> loss ! i = Fin 1" unfolding eq using
        sigmoid_loss1_one by blast
    have e: "\<forall>j<length loss. \<forall>p' n'.
                       pos_pred ! j = Fin p' \<and> neg_pred ! j = Fin n' \<and> p - n \<le> p' -
                           n' \<longrightarrow>
                         fle (loss ! j) (loss ! i)"
    proof (intro allI impI)
      fix j p' n'
      assume j: "j < length loss"
        and h: "pos_pred ! j = Fin p' \<and> neg_pred ! j = Fin n' \<and> p - n \<le> p' - n'"
      have "loss ! j = sigmoid_loss1 (Fin p') (Fin n')" using nth j h by simp
      then show "fle (loss ! j) (loss ! i)" unfolding eq using sigmoid_loss1_antimono h by simp
    qed
    show "loss ! i = fsub32 (Fin 1) (sigmoid32 (fsub32 (Fin p) (Fin n)))
                 \<and> (\<exists>l. loss ! i = Fin l \<and> 0 \<le> l \<and> l \<le> 1)
                 \<and> (20 \<le> p - n \<longrightarrow> loss ! i = Fin 0)
                 \<and> (p - n \<le> - 20 \<longrightarrow> loss ! i = Fin 1)
                 \<and> (\<forall>j<length loss. \<forall>p' n'.
                       pos_pred ! j = Fin p' \<and> neg_pred ! j = Fin n' \<and> p - n \<le> p' -
                           n' \<longrightarrow>
                         fle (loss ! j) (loss ! i))"
      using a b c d e by blast
  qed
  with l show ?thesis by blast
qed

lemma sigmoid_0: "sigmoid 0 = 1 / 2"
  by (simp add: sigmoid_def)

lemma example_sigmoid:
  "forward_sigmoid [Fin 0, Fin 20] [Fin 0, Fin 0] = Inr [Fin (1 / 2), Fin 0]"
proof -
  have "sigmoid_loss1 (Fin 20) (Fin 0) = Fin 0" by (rule sigmoid_loss1_zero) simp
  moreover have "sigmoid_loss1 (Fin 0) (Fin 0) = Fin (1 / 2)"
    using round32_half by (simp add: sigmoid_loss1_def fsub32_def sigmoid_0)
  ultimately show ?thesis by (simp add: forward_sigmoid_def elementwise_def)
qed

theorem forward_sigmoid_range_witness:
  "length [Fin 0, Fin 20] = length [Fin 0, Fin 0]
   \<and> forward_sigmoid [Fin 0, Fin 20] [Fin 0, Fin 0] = Inr [Fin (1 / 2), Fin 0]
   \<and> (20::real) \<le> 20 - 0 \<and> (0::real) - 0 \<le> 20 - 0 \<and> fle (Fin 0) (Fin (1 /
       2))"
  using forward_sigmoid_range [of "[Fin 0, Fin 20]" "[Fin 0, Fin 0]"] example_sigmoid
  by simp

text \<open>
  Claim C9 as stated fails: the loss is exactly 0 for the scores (20, 0) and exactly 1
  for the scores (0, 200).
\<close>
theorem forward_sigmoid_saturation_counterexample:
  "forward_sigmoid [Fin 20] [Fin 0] = Inr [Fin 0] \<and> forward_sigmoid [Fin 0] [Fin 200] = Inr
      [Fin 1]"
proof -
  have "sigmoid_loss1 (Fin 20) (Fin 0) = Fin 0" by (rule sigmoid_loss1_zero) simp
  moreover have "sigmoid_loss1 (Fin 0) (Fin 200) = Fin 1" by (rule sigmoid_loss1_one) simp
  ultimately show ?thesis by (simp add: forward_sigmoid_def elementwise_def)
qed

subsection \<open>\<open>batcher\<close>\<close>

declare batcher_loop.simps [simp del]

lemma batcher_loop_Nil: "batcher_loop [] B = []"
  by (simp add: batcher_loop.simps [of "[]" B])

lemma batcher_loop_step:
  assumes "0 < B" "xs \<noteq> []"
  shows "batcher_loop xs B = take B xs # batcher_loop (drop B xs) B"
proof -
  have "take B xs \<noteq> []" using assms by (cases xs) auto
  then show ?thesis by (simp add: batcher_loop.simps [of xs B] Let_def)
qed

lemma batcher_loop_concat: "0 < B \<Longrightarrow> concat (batcher_loop xs B) = xs"
proof (induction xs B rule: batcher_loop.induct)
  case (1 it batch_size)
  show ?case
  proof (cases "it = []")
    case True
    then show ?thesis by (simp add: batcher_loop_Nil)
  next
    case False
    then have ne: "take batch_size it \<noteq> []" using "1.prems" by (cases it) auto
    have "concat (batcher_loop (drop batch_size it) batch_size) = drop batch_size it"
      using "1.IH" [OF refl ne "1.prems"] .
    then show ?thesis using False "1.prems" by (simp add: batcher_loop_step)
  qed
qed

lemma ceil_div_nat:
  assumes "0 < (B::nat)"
  shows "(L + B - 1) div B = L div B + (if L mod B = 0 then 0 else 1)"
proof (cases "L mod B = 0")
  case True
  define q where "q = L div B"
  have L: "L = q * B" using True div_mult_mod_eq [of L B] by (simp add: q_def)
  have "(q * B + (B - 1)) div B = q + (B - 1) div B" using assms by (subst div_mult_self3) auto
  then have "(q * B + (B - 1)) div B = q" using assms by (simp del: div_mult_self3)
  moreover have "L + B - 1 = q * B + (B - 1)" using assms L by simp
  ultimately show ?thesis using True L assms by simp
next
  case False
  define q r where "q = L div B" and "r = L mod B"
  have L: "L = q * B + r" and r: "0 < r" "r < B" using False assms by (simp_all add: q_def r_def)
  have "L + B - 1 = (q + 1) * B + (r - 1)" using L r by simp
  moreover have "((q + 1) * B + (r - 1)) div B = (q + 1) + (r - 1) div B"
    using assms by (subst div_mult_self3) auto
  moreover have "(r - 1) div B = 0" using r by simp
  ultimately show ?thesis using False by (simp add: q_def)
qed

lemma ceiling_div_nat:
  assumes "0 < (B::nat)"
  shows "\<lceil>real L / real B\<rceil> = int ((L + B - 1) div B)"
proof -
  define q r n where "q = L div B" and "r = L mod B" and "n = (L + B - 1) div B"
  have L: "L = q * B + r" and r: "r < B" using assms by (simp_all add: q_def r_def)
  have n: "n = q + (if r = 0 then 0 else 1)"
    using ceil_div_nat [OF assms, of L] by (simp add: q_def r_def n_def)
  have B: "0 < real B" using assms by simp
  have "L \<le> n * B" using L r n by (cases "r = 0") auto
  then have "real L \<le> real (n * B)" by (simp only: of_nat_le_iff)
  then have up: "real L \<le> real n * real B" by simp
  have "n * B < L + B" using L r n by (cases "r = 0") auto
  then have "real (n * B) < real (L + B)" by (simp only: of_nat_less_iff)
  then have lo: "(real n - 1) * real B < real L" by (simp add: algebra_simps)
  have "real n - 1 < real L / real B" using lo B by (simp only: pos_less_divide_eq)
  moreover have "real L / real B \<le> real n" using up B by (simp only: pos_divide_le_eq)
  ultimately have "\<lceil>real L / real B\<rceil> = int n" by (simp add: ceiling_eq_iff)
  then show ?thesis by (simp add: n_def)
qed

lemma batcher_loop_length: "0 < B \<Longrightarrow> length (batcher_loop xs B) = (length xs + B -
    1) div B"
proof (induction xs B rule: batcher_loop.induct)
  case (1 it batch_size)
  show ?case
  proof (cases "it = []")
    case True
    then show ?thesis using "1.prems" by (simp add: batcher_loop_Nil)
  next
    case False
    then have ne: "take batch_size it \<noteq> []" using "1.prems" by (cases it) auto
    have IH: "length (batcher_loop (drop batch_size it) batch_size)
                = (length (drop batch_size it) + batch_size - 1) div batch_size"
      using "1.IH" [OF refl ne "1.prems"] .
    have pos: "0 < length it" using False by simp
    show ?thesis
    proof (cases "batch_size \<le> length it")
      case True
      then have "length it + batch_size - 1 = (length it - batch_size + batch_size - 1) +
          batch_size"
        using "1.prems" by simp
      then have "(length it + batch_size - 1) div batch_size
                   = (length it - batch_size + batch_size - 1) div batch_size + 1"
        using "1.prems" by (metis div_add_self2 less_numeral_extra(3))
      then show ?thesis using False "1.prems" IH by (simp add: batcher_loop_step)
    next
      case False
      then have "(length it + batch_size - 1) div batch_size = 1"
        using pos ceil_div_nat [OF "1.prems", of "length it"] by simp
      then show ?thesis using False \<open>it \<noteq> []\<close> "1.prems" IH by (simp add:
          batcher_loop_step)
    qed
  qed
qed

lemma batcher_loop_nth:
  "0 < B \<Longrightarrow> i < length (batcher_loop xs B) \<Longrightarrow> batcher_loop xs B ! i =
      take B (drop (i * B) xs)"
proof (induction xs B arbitrary: i rule: batcher_loop.induct)
  case (1 it batch_size)
  show ?case
  proof (cases "it = []")
    case True
    then show ?thesis using "1.prems" by (simp add: batcher_loop_Nil)
  next
    case False
    then have ne: "take batch_size it \<noteq> []" using "1.prems" by (cases it) auto
    have step: "batcher_loop it batch_size
                  = take batch_size it # batcher_loop (drop batch_size it) batch_size"
      using False "1.prems" by (simp add: batcher_loop_step)
    show ?thesis
    proof (cases i)
      case 0
      then show ?thesis by (simp add: step)
    next
      case (Suc j)
      then have "j < length (batcher_loop (drop batch_size it) batch_size)"
        using "1.prems" step by simp
      then have "batcher_loop (drop batch_size it) batch_size ! j
                   = take batch_size (drop (j * batch_size) (drop batch_size it))"
        using "1.IH" [OF refl ne "1.prems"(1)] by blast
      then show ?thesis using Suc by (simp add: step add.commute)
    qed
  qed
qed

lemma chunk_size:
  assumes "0 < (B::nat)" "i < (L + B - 1) div B"
  shows "min B (L - i * B) =
           (if i + 1 < (L + B - 1) div B then B else if L mod B = 0 then B else L mod B)"
proof -
  define q r where "q = L div B" and "r = L mod B"
  have L: "L = q * B + r" and r: "r < B" using assms by (simp_all add: q_def r_def)
  have n: "(L + B - 1) div B = q + (if r = 0 then 0 else 1)"
    using ceil_div_nat [OF assms(1), of L] by (simp add: q_def r_def)
  show ?thesis
  proof (cases "i + 1 < (L + B - 1) div B")
    case True
    then have "i + 1 \<le> q" using n by (simp split: if_splits)
    then have "(i + 1) * B \<le> q * B" by (rule mult_le_mono1)
    then have "i * B + B \<le> L" using L by simp
    then show ?thesis using True by simp
  next
    case False
    then have i: "i + 1 = q + (if r = 0 then 0 else 1)" using assms(2) n by simp
    show ?thesis
    proof (cases "r = 0")
      case True
      then have "q = i + 1" using i by simp
      then have "L - i * B = B" using L True by simp
      then show ?thesis using False True by (simp add: r_def)
    next
      case nz: False
      then have "q = i" using i by simp
      then have "L - i * B = r" using L by simp
      then show ?thesis using False nz r by (simp add: r_def)
    qed
  qed
qed

text \<open>
  Claim C5. For a sequence of length \<open>L\<close> and a batch size \<open>B \<ge> 1\<close>, \<open>batcher\<close> yields
  \<open>ceil(L/B)\<close> chunks that are the consecutive segments of the sequence, in order; every
  chunk has \<open>B\<close> elements except possibly the last, which has \<open>L mod B\<close> (or \<open>B\<close> when
  \<open>L mod B = 0\<close>); an empty sequence yields no chunk.
\<close>
theorem batcher_chunks:
  assumes "1 \<le> batch_size"
  shows "\<exists>chunks. batcher xs batch_size = Inr chunks
           \<and> concat chunks = xs
           \<and> length chunks = (length xs + nat batch_size - 1) div nat batch_size
           \<and> int (length chunks) = \<lceil>real (length xs) / real_of_int batch_size\<rceil>
           \<and> (xs = [] \<longrightarrow> chunks = [])
           \<and> (\<forall>i<length chunks.
                 chunks ! i = take (nat batch_size) (drop (i * nat batch_size) xs)
               \<and> length (chunks ! i) =
                   (if i + 1 < length chunks then nat batch_size
                    else if length xs mod nat batch_size = 0 then nat batch_size
                    else length xs mod nat batch_size))"
proof -
  define B where "B = nat batch_size"
  define chunks where "chunks = batcher_loop xs B"
  have B: "0 < B" using assms by (simp add: B_def)
  have run: "batcher xs batch_size = Inr chunks"
    using assms by (simp add: batcher_def chunks_def B_def)
  have cat: "concat chunks = xs" using B by (simp add: chunks_def batcher_loop_concat)
  have len: "length chunks = (length xs + B - 1) div B"
    using B by (simp add: chunks_def batcher_loop_length)
  have "real_of_int batch_size = real B" using assms by (simp add: B_def)
  then have ceil: "int (length chunks) = \<lceil>real (length xs) / real_of_int batch_size\<rceil>"
    using len ceiling_div_nat [OF B, of "length xs"] by simp
  have empty: "xs = [] \<longrightarrow> chunks = []" by (simp add: chunks_def batcher_loop_Nil)
  have each: "\<forall>i<length chunks.
                 chunks ! i = take B (drop (i * B) xs)
               \<and> length (chunks ! i) =
                   (if i + 1 < length chunks then B
                    else if length xs mod B = 0 then B else length xs mod B)"
  proof (intro allI impI)
    fix i assume i: "i < length chunks"
    have nth: "chunks ! i = take B (drop (i * B) xs)"
      using B i by (simp add: chunks_def batcher_loop_nth)
    have "length (chunks ! i) = min B (length xs - i * B)" by (simp add: nth min.commute)
    also have "\<dots> = (if i + 1 < length chunks then B
                    else if length xs mod B = 0 then B else length xs mod B)"
      using chunk_size [OF B, of i "length xs"] i len by simp
    finally show "chunks ! i = take B (drop (i * B) xs)
               \<and> length (chunks ! i) =
                   (if i + 1 < length chunks then B
                    else if length xs mod B = 0 then B else length xs mod B)"
      using nth by simp
  qed
  show ?thesis
    using run cat len ceil empty each unfolding B_def by blast
qed

theorem batcher_chunks_witness:
  "(1::int) \<le> 2 \<and> batcher [10, 20, 30, 40, 50 :: int] 2 = Inr [[10, 20], [30, 40], [50]]
   \<and> batcher ([] :: int list) 2 = Inr []"
proof -
  have h: "(1::int) \<le> 2" by simp
  obtain chunks where c: "batcher [10, 20, 30, 40, 50 :: int] 2 = Inr chunks"
      and n: "length chunks = (length [10, 20, 30, 40, 50 :: int] + nat 2 - 1) div nat 2"
      and e: "\<forall>i<length chunks. chunks ! i = take (nat 2) (drop (i * nat 2) [10, 20, 30,
          40, 50 :: int])"
    using batcher_chunks [OF h, of "[10, 20, 30, 40, 50 :: int]"] by blast
  have n3: "length chunks = 3" using n by simp
  then have "chunks = [chunks ! 0, chunks ! 1, chunks ! 2]"
    by (auto simp: length_Suc_conv numeral_3_eq_3 numeral_2_eq_2)
  moreover have "chunks ! 0 = [10, 20]" "chunks ! 1 = [30, 40]" "chunks ! 2 = [50]"
    using e n3 by simp_all
  ultimately have "chunks = [[10, 20], [30, 40], [50]]" by simp
  moreover obtain chunks0 where "batcher ([] :: int list) 2 = Inr chunks0" "chunks0 = []"
    using batcher_chunks [OF h, of "[] :: int list"] by blast
  ultimately show ?thesis using c by simp
qed

subsection \<open>\<open>sample_neg\<close>\<close>

declare sample_neg_loop.simps [simp del]

lemma randint_ok:
  assumes "0 < n_items"
  shows "randint 0 n_items s =
           (Inr (int (entropy s (drawn s)) mod n_items), s\<lparr>drawn := drawn s + 1\<rparr>)"
  using assms by (simp add: randint_def)

lemma randint_drawn: "drawn (snd (randint low high s)) \<le> drawn s + 1"
  by (simp add: randint_def)

lemma randint_Inr:
  assumes "randint 0 n_items s = (Inr v, s')"
  shows "0 \<le> v \<and> v < n_items \<and> drawn s' = drawn s + 1 \<and> entropy s' = entropy s"
  using assms by (auto simp: randint_def split: if_splits)

lemma randint_Inl:
  assumes "randint 0 n_items s = (Inl e, s')"
  shows "s' = s \<and> n_items \<le> 0"
  using assms by (auto simp: randint_def split: if_splits)

lemma sample_neg_loop_draws:
  "drawn (snd (sample_neg_loop pos max_samples cond n_items n_sampled v s))
     \<le> drawn s + nat (max_samples - n_sampled)"
proof (induction pos max_samples cond n_items n_sampled v s rule: sample_neg_loop.induct)
  case (1 pos max_samples cond n_items n_sampled v s)
  show ?case
  proof (cases "n_sampled < max_samples")
    case False
    then show ?thesis
      by (simp add: sample_neg_loop.simps [of pos max_samples cond n_items n_sampled v s]
               split: option.splits)
  next
    case True
    obtain r s' where r: "randint 0 n_items s = (r, s')" by (cases "randint 0 n_items s")
    have budget: "nat (max_samples - n_sampled) = Suc (nat (max_samples - (n_sampled + 1)))"
      using True by simp
    show ?thesis
    proof (cases r)
      case (Inl e)
      then have "s' = s" using r randint_Inl by blast
      then show ?thesis using True r Inl
        by (simp add: sample_neg_loop.simps [of pos max_samples cond n_items n_sampled v s])
    next
      case (Inr x)
      then have s': "drawn s' = drawn s + 1" using r randint_Inr by blast
      show ?thesis
      proof (cases "x \<notin> set pos")
        case False
        have "drawn (snd (sample_neg_loop pos max_samples cond n_items (n_sampled + 1) (Some x) s'))
                \<le> drawn s' + nat (max_samples - (n_sampled + 1))"
          using "1.IH"(2) [OF True r [symmetric] Inr] False by simp
        then show ?thesis using True r Inr False s' budget
          by (simp add: sample_neg_loop.simps [of pos max_samples cond n_items n_sampled v s])
      next
        case notin: True
        show ?thesis
        proof (cases "cond x")
          case (Inl e)
          then show ?thesis using True r Inr notin s'
            by (simp add: sample_neg_loop.simps [of pos max_samples cond n_items n_sampled v s])
        next
          case b: (Inr b)
          show ?thesis
          proof (cases b)
            case True
            then show ?thesis using \<open>n_sampled < max_samples\<close> r Inr notin s' b
              by (simp add: sample_neg_loop.simps [of pos max_samples cond n_items n_sampled v s])
          next
            case False
            have "drawn (snd (sample_neg_loop pos max_samples cond n_items (n_sampled + 1) (Some x)
                s'))
                    \<le> drawn s' + nat (max_samples - (n_sampled + 1))"
              using "1.IH"(1) [OF True r [symmetric] Inr notin b] False by simp
            then show ?thesis using True r Inr notin s' b False budget
              by (simp add: sample_neg_loop.simps [of pos max_samples cond n_items n_sampled v s])
          qed
        qed
      qed
    qed
  qed
qed

lemma sample_neg_loop_Inr:
  "sample_neg_loop pos max_samples cond n_items n_sampled v s = (Inr (neg, k), s') \<Longrightarrow>
     n_sampled \<le> k \<and> (n_sampled < max_samples \<longrightarrow> n_sampled < k \<and> k
         \<le> max_samples)
   \<and> drawn s' = drawn s + nat (k - n_sampled)
   \<and> (k < max_samples \<longrightarrow> neg \<notin> set pos \<and> cond neg = Inr True)
   \<and> ((\<forall>x. v = Some x \<longrightarrow> 0 \<le> x \<and> x < n_items)
       \<longrightarrow> 0 \<le> neg \<and> neg < n_items)"
proof (induction pos max_samples cond n_items n_sampled v s rule: sample_neg_loop.induct)
  case (1 pos max_samples cond n_items n_sampled v s)
  note unfold = sample_neg_loop.simps [of pos max_samples cond n_items n_sampled v s]
  show ?case
  proof (cases "n_sampled < max_samples")
    case False
    then show ?thesis using "1.prems" by (auto simp: unfold split: option.splits)
  next
    case True
    obtain r s1 where r: "randint 0 n_items s = (r, s1)" by (cases "randint 0 n_items s")
    show ?thesis
    proof (cases r)
      case (Inl e)
      then show ?thesis using True r "1.prems" by (simp add: unfold)
    next
      case (Inr x)
      then have x: "0 \<le> x" "x < n_items" and s1: "drawn s1 = drawn s + 1"
        using r randint_Inr by blast+
      have rec: "sample_neg_loop pos max_samples cond n_items (n_sampled + 1) (Some x) s1
                   = (Inr (neg, k), s') \<Longrightarrow> ?thesis"
        if ih: "sample_neg_loop pos max_samples cond n_items (n_sampled + 1) (Some x) s1
                   = (Inr (neg, k), s') \<Longrightarrow>
                 n_sampled + 1 \<le> k
               \<and> (n_sampled + 1 < max_samples \<longrightarrow> n_sampled + 1 < k \<and> k
                   \<le> max_samples)
               \<and> drawn s' = drawn s1 + nat (k - (n_sampled + 1))
               \<and> (k < max_samples \<longrightarrow> neg \<notin> set pos \<and> cond neg = Inr
                   True)
               \<and> ((\<forall>y. Some x = Some y \<longrightarrow> 0 \<le> y \<and> y < n_items)
                   \<longrightarrow> 0 \<le> neg \<and> neg < n_items)"
      proof -
        assume run: "sample_neg_loop pos max_samples cond n_items (n_sampled + 1) (Some x) s1
                   = (Inr (neg, k), s')"
        note f = ih [OF run]
        have k1: "n_sampled + 1 \<le> k" using f by blast
        have k2: "k \<le> max_samples"
        proof (cases "n_sampled + 1 < max_samples")
          case True then show ?thesis using f by blast
        next
          case False
          then have "sample_neg_loop pos max_samples cond n_items (n_sampled + 1) (Some x) s1
                       = (Inr (x, n_sampled + 1), s1)"
            by (simp add: sample_neg_loop.simps
                  [of pos max_samples cond n_items "n_sampled + 1" "Some x" s1])
          then have "k = n_sampled + 1" using run by simp
          then show ?thesis using True by simp
        qed
        have d: "drawn s' = drawn s + nat (k - n_sampled)" using f s1 k1 by (simp add:
            nat_diff_distrib')
        have rng: "0 \<le> neg \<and> neg < n_items" using f x by simp
        show ?thesis using k1 k2 d rng f by auto
      qed
      show ?thesis
      proof (cases "x \<notin> set pos")
        case False
        then have "sample_neg_loop pos max_samples cond n_items (n_sampled + 1) (Some x) s1
                     = (Inr (neg, k), s')"
          using True r Inr "1.prems" by (simp add: unfold)
        moreover note "1.IH"(2) [OF True r [symmetric] Inr]
        ultimately show ?thesis using rec False by simp
      next
        case notin: True
        show ?thesis
        proof (cases "cond x")
          case (Inl e)
          then show ?thesis using True r Inr notin "1.prems" by (simp add: unfold)
        next
          case b: (Inr b)
          show ?thesis
          proof (cases b)
            case True
            then have "neg = x" "k = n_sampled + 1" "s' = s1"
              using \<open>n_sampled < max_samples\<close> r Inr notin b "1.prems" by (simp_all
                  add: unfold)
            then show ?thesis using \<open>n_sampled < max_samples\<close> x s1 notin b True by simp
          next
            case False
            then have "sample_neg_loop pos max_samples cond n_items (n_sampled + 1) (Some x) s1
                         = (Inr (neg, k), s')"
              using True r Inr notin b "1.prems" by (simp add: unfold)
            moreover note "1.IH"(1) [OF True r [symmetric] Inr notin b]
            ultimately show ?thesis using rec False by simp
          qed
        qed
      qed
    qed
  qed
qed

lemma sample_neg_loop_succeeds:
  "1 \<le> n_items \<Longrightarrow>
   (\<forall>i. 0 \<le> i \<and> i < n_items \<and> i \<notin> set pos \<longrightarrow>
       (\<exists>b. cond i = Inr b)) \<Longrightarrow>
   n_sampled < max_samples \<or> v \<noteq> None \<Longrightarrow>
   \<exists>neg k s'. sample_neg_loop pos max_samples cond n_items n_sampled v s = (Inr (neg, k),
       s')"
proof (induction pos max_samples cond n_items n_sampled v s rule: sample_neg_loop.induct)
  case (1 pos max_samples cond n_items n_sampled v s)
  note unfold = sample_neg_loop.simps [of pos max_samples cond n_items n_sampled v s]
  show ?case
  proof (cases "n_sampled < max_samples")
    case False
    then show ?thesis using "1.prems" by (auto simp: unfold split: option.splits)
  next
    case True
    define x where "x = int (entropy s (drawn s)) mod n_items"
    define s1 where "s1 = s\<lparr>drawn := drawn s + 1\<rparr>"
    have r: "randint 0 n_items s = (Inr x, s1)"
      using "1.prems"(1) by (simp add: randint_ok x_def s1_def)
    have x: "0 \<le> x" "x < n_items" using "1.prems"(1) by (simp_all add: x_def)
    show ?thesis
    proof (cases "x \<notin> set pos")
      case False
      have "\<exists>neg k s'. sample_neg_loop pos max_samples cond n_items (n_sampled + 1) (Some
          x) s1
                         = (Inr (neg, k), s')"
        using "1.IH"(2) [OF True r [symmetric] refl] False "1.prems"(1,2) by simp
      then show ?thesis using True r False by (simp add: unfold)
    next
      case notin: True
      then obtain b where b: "cond x = Inr b" using "1.prems"(2) x by blast
      show ?thesis
      proof (cases b)
        case True
        then show ?thesis using \<open>n_sampled < max_samples\<close> r notin b by (simp add:
            unfold)
      next
        case False
        have "\<exists>neg k s'. sample_neg_loop pos max_samples cond n_items (n_sampled + 1) (Some
            x) s1
                           = (Inr (neg, k), s')"
          using "1.IH"(1) [OF True r [symmetric] refl notin b] False "1.prems"(1,2) by simp
        then show ?thesis using True r notin b False by (simp add: unfold)
      qed
    qed
  qed
qed

lemma sample_neg_Inr:
  assumes "sample_neg user_ind interactions max_samples violating_cond n_items s = (Inr (neg, k),
      s')"
  shows "\<exists>pos. get_row_nz interactions user_ind = Inr pos
           \<and> sample_neg_loop pos max_samples violating_cond n_items 0 None s = (Inr (neg, k),
               s')"
  using assms by (auto simp: sample_neg_def split: sum.splits)

lemma sample_neg_succeeds:
  assumes "1 \<le> max_samples" "1 \<le> n_items" "get_row_nz interactions user_ind = Inr pos"
    and "\<forall>i. 0 \<le> i \<and> i < n_items \<and> i \<notin> set pos \<longrightarrow>
        (\<exists>b. violating_cond i = Inr b)"
  shows "\<exists>neg k s'. sample_neg user_ind interactions max_samples violating_cond n_items s
                      = (Inr (neg, k), s')
           \<and> sample_neg_loop pos max_samples violating_cond n_items 0 None s = (Inr (neg, k),
               s')"
proof -
  have "0 < max_samples \<or> (None :: int option) \<noteq> None" using assms(1) by simp
  then obtain neg k s' where
    "sample_neg_loop pos max_samples violating_cond n_items 0 None s = (Inr (neg, k), s')"
    using sample_neg_loop_succeeds [OF assms(2) assms(4)] by blast
  then show ?thesis using assms(3) by (simp add: sample_neg_def)
qed

text \<open>Concrete runs: a matrix of two users and three items, and the random source that
  draws the items 0, 1, 2, 0, ... in turn.\<close>

lemma example_row0:
  "get_row_nz \<lparr>indptr = [0, 2, 3], indices = [0, 1, 2], data = [1, 1, 1], shape = (2,
      3)\<rparr> 0
     = Inr [0, 1]"
  by (simp add: get_row_nz_def np_getitem_def np_slice_def slice_bound_def)

lemma example_run0:
  "sample_neg 0 \<lparr>indptr = [0, 2, 3], indices = [0, 1, 2], data = [1, 1, 1], shape = (2,
      3)\<rparr>
      100 accept_all 3 \<lparr>entropy = (\<lambda>i. i), drawn = 0\<rparr>
     = (Inr (2, 3), \<lparr>entropy = (\<lambda>i. i), drawn = 3\<rparr>)"
  by (simp add: sample_neg_def example_row0 sample_neg_loop.simps randint_def accept_all_def)

lemma example_row_full:
  "get_row_nz \<lparr>indptr = [0, 3, 4], indices = [0, 1, 2, 2], data = [1, 1, 1, 1], shape = (2,
      3)\<rparr> 0
     = Inr [0, 1, 2]"
  by (simp add: get_row_nz_def np_getitem_def np_slice_def slice_bound_def)

lemma example_run_full:
  "sample_neg 0 \<lparr>indptr = [0, 3, 4], indices = [0, 1, 2, 2], data = [1, 1, 1, 1], shape =
      (2, 3)\<rparr>
      4 accept_all 3 \<lparr>entropy = (\<lambda>i. i), drawn = 0\<rparr>
     = (Inr (0, 4), \<lparr>entropy = (\<lambda>i. i), drawn = 4\<rparr>)"
  by (simp add: sample_neg_def example_row_full sample_neg_loop.simps randint_def accept_all_def)

lemma example_run_reject:
  "sample_neg 0 \<lparr>indptr = [0, 2, 3], indices = [0, 1, 2], data = [1, 1, 1], shape = (2,
      3)\<rparr>
      4 (\<lambda>i. Inr False) 3 \<lparr>entropy = (\<lambda>i. i), drawn = 0\<rparr>
     = (Inr (0, 4), \<lparr>entropy = (\<lambda>i. i), drawn = 4\<rparr>)"
  by (simp add: sample_neg_def example_row0 sample_neg_loop.simps randint_def)



text \<open>
  Claim C6. \<open>sample_neg\<close> is a total function (its loop has a decreasing measure), and
  for every user, matrix, predicate, catalog size and cap it draws at most
  \<open>max_samples\<close> candidates; with a valid user row, \<open>max_samples \<ge> 1\<close> and a non-empty
  catalog it returns a pair whose attempt count is the number of draws, also when the
  predicate never accepts and when every item is a positive of the user.
\<close>
theorem sample_neg_bounded_draws:
  "drawn (snd (sample_neg user_ind interactions max_samples violating_cond n_items s))
     \<le> drawn s + nat max_samples
   \<and> (1 \<le> max_samples \<and> 1 \<le> n_items \<and> get_row_nz interactions user_ind = Inr
       pos
        \<and> (\<forall>i. 0 \<le> i \<and> i < n_items \<and> i \<notin> set pos
            \<longrightarrow> (\<exists>b. violating_cond i = Inr b))
      \<longrightarrow> (\<exists>neg k s'. sample_neg user_ind interactions max_samples
          violating_cond n_items s
                         = (Inr (neg, k), s')
             \<and> 1 \<le> k \<and> k \<le> max_samples \<and> drawn s' = drawn s + nat k))"
proof (intro conjI impI)
  show "drawn (snd (sample_neg user_ind interactions max_samples violating_cond n_items s))
          \<le> drawn s + nat max_samples"
  proof (cases "get_row_nz interactions user_ind")
    case (Inl e)
    then show ?thesis by (simp add: sample_neg_def)
  next
    case (Inr p)
    then show ?thesis
      using sample_neg_loop_draws [of p max_samples violating_cond n_items 0 None s]
      by (simp add: sample_neg_def)
  qed
next
  assume a: "1 \<le> max_samples \<and> 1 \<le> n_items \<and> get_row_nz interactions user_ind =
      Inr pos
        \<and> (\<forall>i. 0 \<le> i \<and> i < n_items \<and> i \<notin> set pos
            \<longrightarrow> (\<exists>b. violating_cond i = Inr b))"
  then obtain neg k s' where
    run: "sample_neg user_ind interactions max_samples violating_cond n_items s = (Inr (neg, k),
        s')"
    and loop: "sample_neg_loop pos max_samples violating_cond n_items 0 None s = (Inr (neg, k), s')"
    using sample_neg_succeeds [of max_samples n_items interactions user_ind pos violating_cond s]
    by blast
  have "1 \<le> k \<and> k \<le> max_samples \<and> drawn s' = drawn s + nat k"
    using sample_neg_loop_Inr [OF loop] a by auto
  then show "\<exists>neg k s'. sample_neg user_ind interactions max_samples violating_cond n_items
      s
                         = (Inr (neg, k), s')
             \<and> 1 \<le> k \<and> k \<le> max_samples \<and> drawn s' = drawn s + nat k"
    using run by blast
qed

theorem sample_neg_bounded_draws_witness:
  "drawn (snd (sample_neg 0
       \<lparr>indptr = [0, 3, 4], indices = [0, 1, 2, 2], data = [1, 1, 1, 1], shape = (2,
           3)\<rparr>
       4 accept_all 3 \<lparr>entropy = (\<lambda>i. i), drawn = 0\<rparr>)) = 4
   \<and> (1::int) \<le> 4 \<and> (1::int) \<le> 3
   \<and> get_row_nz \<lparr>indptr = [0, 3, 4], indices = [0, 1, 2, 2], data = [1, 1, 1, 1], shape
       = (2, 3)\<rparr> 0
       = Inr [0, 1, 2]
   \<and> fst (sample_neg 0
       \<lparr>indptr = [0, 3, 4], indices = [0, 1, 2, 2], data = [1, 1, 1, 1], shape = (2,
           3)\<rparr>
       4 accept_all 3 \<lparr>entropy = (\<lambda>i. i), drawn = 0\<rparr>) = Inr (0, 4)
   \<and> sample_neg 0 \<lparr>indptr = [0, 2, 3], indices = [0, 1, 2], data = [1, 1, 1], shape =
       (2, 3)\<rparr>
        4 (\<lambda>i. Inr False) 3 \<lparr>entropy = (\<lambda>i. i), drawn = 0\<rparr>
       = (Inr (0, 4), \<lparr>entropy = (\<lambda>i. i), drawn = 4\<rparr>)"
  using sample_neg_bounded_draws
          [of 0 "\<lparr>indptr = [0, 3, 4], indices = [0, 1, 2, 2], data = [1, 1, 1, 1], shape =
              (2, 3)\<rparr>"
              4 accept_all 3 "\<lparr>entropy = (\<lambda>i. i), drawn = 0\<rparr>" "[0, 1, 2]"]
        example_run_full example_run_reject example_row_full
  by (simp add: accept_all_def)

text \<open>
  Claim C10. With \<open>max_samples \<ge> 1\<close>, \<open>n_items \<ge> 1\<close>, a valid user row and a predicate
  that does not raise on catalog items, \<open>sample_neg\<close> returns a pair
  \<open>(neg_item_ind, n_sampled)\<close> with \<open>0 \<le> neg_item_ind < n_items\<close> and
  \<open>1 \<le> n_sampled \<le> max_samples\<close>.
\<close>
theorem sample_neg_result_range:
  "(sample_neg user_ind interactions max_samples violating_cond n_items s = (Inr (neg, k), s')
      \<longrightarrow> 0 \<le> neg \<and> neg < n_items \<and> 1 \<le> k \<and> k \<le>
          max_samples)
   \<and> (1 \<le> max_samples \<and> 1 \<le> n_items \<and> get_row_nz interactions user_ind = Inr
       pos
        \<and> (\<forall>i. 0 \<le> i \<and> i < n_items \<and> i \<notin> set pos
            \<longrightarrow> (\<exists>b. violating_cond i = Inr b))
      \<longrightarrow> (\<exists>neg k s'. sample_neg user_ind interactions max_samples
          violating_cond n_items s
                         = (Inr (neg, k), s')
             \<and> 0 \<le> neg \<and> neg < n_items \<and> 1 \<le> k \<and> k \<le> max_samples))"
proof -
  have ret: "0 \<le> neg \<and> neg < n_items \<and> 1 \<le> k \<and> k \<le> max_samples"
    if run: "sample_neg user_ind interactions max_samples violating_cond n_items s = (Inr (neg, k),
        s')"
    for neg k s'
  proof -
    obtain p where
      loop: "sample_neg_loop p max_samples violating_cond n_items 0 None s = (Inr (neg, k), s')"
      using sample_neg_Inr [OF run] by blast
    note f = sample_neg_loop_Inr [OF loop]
    have "0 < max_samples"
    proof (rule ccontr)
      assume "\<not> 0 < max_samples"
      then have "sample_neg_loop p max_samples violating_cond n_items 0 None s
                   = (Inl UnboundLocalError, s)"
        by (simp add: sample_neg_loop.simps [of p max_samples violating_cond n_items 0 None s])
      then show False using loop by simp
    qed
    then show ?thesis using f by auto
  qed
  have ex: "\<exists>neg k s'. sample_neg user_ind interactions max_samples violating_cond n_items s
                         = (Inr (neg, k), s')
             \<and> 0 \<le> neg \<and> neg < n_items \<and> 1 \<le> k \<and> k \<le> max_samples"
    if a: "1 \<le> max_samples \<and> 1 \<le> n_items \<and> get_row_nz interactions user_ind = Inr
        pos
        \<and> (\<forall>i. 0 \<le> i \<and> i < n_items \<and> i \<notin> set pos
            \<longrightarrow> (\<exists>b. violating_cond i = Inr b))"
  proof -
    obtain neg k s' where
      run: "sample_neg user_ind interactions max_samples violating_cond n_items s = (Inr (neg, k),
          s')"
      using a sample_neg_succeeds [of max_samples n_items interactions user_ind pos violating_cond
          s]
      by blast
    then show ?thesis using ret [OF run] by blast
  qed
  show ?thesis using ret ex by blast
qed

theorem sample_neg_result_range_witness:
  "sample_neg 0 \<lparr>indptr = [0, 2, 3], indices = [0, 1, 2], data = [1, 1, 1], shape = (2,
      3)\<rparr>
      100 accept_all 3 \<lparr>entropy = (\<lambda>i. i), drawn = 0\<rparr>
     = (Inr (2, 3), \<lparr>entropy = (\<lambda>i. i), drawn = 3\<rparr>)
   \<and> (0::int) \<le> 2 \<and> (2::int) < 3 \<and> (1::int) \<le> 3 \<and> (3::int) \<le> 100
   \<and> (1::int) \<le> 100 \<and> (1::int) \<le> 3
   \<and> get_row_nz \<lparr>indptr = [0, 2, 3], indices = [0, 1, 2], data = [1, 1, 1], shape = (2,
       3)\<rparr> 0
       = Inr [0, 1]
   \<and> accept_all 2 = Inr True"
  using sample_neg_result_range
          [of 0 "\<lparr>indptr = [0, 2, 3], indices = [0, 1, 2], data = [1, 1, 1], shape = (2,
              3)\<rparr>"
              100 accept_all 3 "\<lparr>entropy = (\<lambda>i. i), drawn = 0\<rparr>" 2 3
              "\<lparr>entropy = (\<lambda>i. i), drawn = 3\<rparr>" "[0, 1]"]
        example_run0 example_row0
  by (simp add: accept_all_def)

subsection \<open>\<open>FactNet.forward\<close>\<close>

text \<open>
  Claim C7. \<open>forward(uid, pid, nid)\<close> returns the pair \<open>(pos_pred, neg_pred)\<close> exactly
  when \<open>predict_score(uid, pid)\<close> returns \<open>pos_pred\<close> and \<open>predict_score(uid, nid)\<close>
  returns \<open>neg_pred\<close>: both scores come from the one scoring function over the single
  item-embedding table (and \<open>forward\<close> raises exactly when one of the two calls raises).
\<close>
theorem forward_eq_predict_score:
  "(forward net uid pid nid = Inr (pos_pred, neg_pred)
      \<longleftrightarrow> predict_score net uid pid = Inr pos_pred \<and> predict_score net uid
          nid = Inr neg_pred)
   \<and> ((\<exists>e. forward net uid pid nid = Inl e)
      \<longleftrightarrow> (\<exists>e. predict_score net uid pid = Inl e) \<or> (\<exists>e.
          predict_score net uid nid = Inl e))"
  by (auto simp: forward_def predict_score_def split: sum.splits)

lemma example_forward:
  "forward \<lparr>net_n_users = 2, net_n_items = 3, net_n_latent = 2,
            user_embedding_weight = (\<lambda>i d. of_int i + 1),
            item_embedding_weight = (\<lambda>i d. of_int i)\<rparr> [0, 1] [1, 2] [2, 0]
     = Inr ([2, 8], [4, 0])"
  by (simp add: forward_def user_embedding_layer_def item_embedding_layer_def embedding_def
        mul_sum_dim1_def numeral_2_eq_2)

theorem forward_eq_predict_score_witness:
  "predict_score \<lparr>net_n_users = 2, net_n_items = 3, net_n_latent = 2,
            user_embedding_weight = (\<lambda>i d. of_int i + 1),
            item_embedding_weight = (\<lambda>i d. of_int i)\<rparr> [0, 1] [1, 2] = Inr [2, 8]
   \<and> predict_score \<lparr>net_n_users = 2, net_n_items = 3, net_n_latent = 2,
            user_embedding_weight = (\<lambda>i d. of_int i + 1),
            item_embedding_weight = (\<lambda>i d. of_int i)\<rparr> [0, 1] [2, 0] = Inr [4, 0]"
  using forward_eq_predict_score
          [of "\<lparr>net_n_users = 2, net_n_items = 3, net_n_latent = 2,
            user_embedding_weight = (\<lambda>i d. of_int i + 1),
            item_embedding_weight = (\<lambda>i d. of_int i)\<rparr>" "[0, 1]" "[1, 2]" "[2, 0]"
                "[2, 8]" "[4, 0]"]
        example_forward
  by simp

subsection \<open>\<open>full_auc\<close>\<close>










end
